theory Spec2Isabelle
  imports Main "HOL-Library.Sublist" "HOL-Library.Word"
begin

section \<open>Constants of \<^verbatim>\<open>pn_discovery.h\<close> and of the implementation\<close>

abbreviation PN_MAX_ID_LEN :: nat where "PN_MAX_ID_LEN \<equiv> 64"
abbreviation PN_MAX_SERVICE_LEN :: nat where "PN_MAX_SERVICE_LEN \<equiv> 32"
abbreviation PN_MAX_IP_LEN :: nat where "PN_MAX_IP_LEN \<equiv> 64"
abbreviation PN_MAX_CAPS_LEN :: nat where "PN_MAX_CAPS_LEN \<equiv> 128"
abbreviation PN_MAX_SERVICES :: nat where "PN_MAX_SERVICES \<equiv> 32"
abbreviation PN_MAGIC :: string where "PN_MAGIC \<equiv> ''PNSD''"
abbreviation PN_MAX_MSG_LEN :: int where "PN_MAX_MSG_LEN \<equiv> 1024"

text \<open>
  The type \<open>int\<close> of C: 32 bits, in two's complement. \<open>sint\<close> reads such a value as
  the signed number it stands for.
\<close>

type_synonym c_int = "32 word"

abbreviation PN_VERSION :: c_int where "PN_VERSION \<equiv> 1"

section \<open>The C library functions the code calls\<close>

text \<open>
  A C string is modelled by the list of its characters before the terminating NUL.
  \<open>c_str\<close> reads a byte array as a C string: it stops at the first NUL.
\<close>

abbreviation NUL :: char where "NUL \<equiv> CHR 0x00"
abbreviation DQ :: char where "DQ \<equiv> CHR 0x22"

definition c_str :: "char list \<Rightarrow> string" where
  "c_str bytes = takeWhile (\<lambda>c. c \<noteq> NUL) bytes"

text \<open>\<open>strstr\<close>: the suffix of the haystack that starts at the first occurrence of the needle.\<close>

fun strstr :: "string \<Rightarrow> string \<Rightarrow> string option" where
  "strstr [] needle = (if needle = [] then Some [] else None)"
| "strstr (c # cs) needle =
     (if prefix needle (c # cs) then Some (c # cs) else strstr cs needle)"

text \<open>\<open>strchr\<close>: the suffix that starts at the first occurrence of the character.\<close>

fun strchr :: "string \<Rightarrow> char \<Rightarrow> string option" where
  "strchr [] ch = None"
| "strchr (c # cs) ch = (if c = ch then Some (c # cs) else strchr cs ch)"

text \<open>
  \<open>strncpy dest src n\<close> into a field whose last byte is never written and stays NUL
  (the fields of the zero-initialised global state, always copied with \<open>n = size - 1\<close>):
  the field then reads as the first \<open>n\<close> characters of the source.
\<close>

definition strncpy :: "string \<Rightarrow> nat \<Rightarrow> string" where
  "strncpy src n = take n src"

definition isspace :: "char \<Rightarrow> bool" where
  "isspace c = (c \<in> {CHR 0x20, CHR 0x09, CHR 0x0A, CHR 0x0B, CHR 0x0C, CHR 0x0D})"

definition isdigit :: "char \<Rightarrow> bool" where
  "isdigit c = (48 \<le> (of_char c :: nat) \<and> (of_char c :: nat) \<le> 57)"

fun atoi_digits :: "int \<Rightarrow> string \<Rightarrow> int" where
  "atoi_digits acc [] = acc"
| "atoi_digits acc (c # cs) =
     (if isdigit c then atoi_digits (10 * acc + (of_char c - 48)) cs else acc)"

text \<open>
  \<open>strtol(s, NULL, 10)\<close>: optional white space, an optional sign, then decimal digits;
  a value outside the range of \<open>long\<close> (64 bits) is replaced by the nearest bound.
\<close>

definition strtol :: "string \<Rightarrow> int" where
  "strtol s =
     (let v = (case dropWhile isspace s of
                 [] \<Rightarrow> 0
               | c # cs \<Rightarrow>
                   if c = CHR ''-'' then - atoi_digits 0 cs
                   else if c = CHR ''+'' then atoi_digits 0 cs
                   else atoi_digits 0 (c # cs))
      in max (- (2 ^ 63)) (min (2 ^ 63 - 1) v))"

text \<open>
  \<open>atoi\<close> as the C library defines it, \<open>(int) strtol(s, NULL, 10)\<close>: the conversion to
  \<open>int\<close> keeps the low 32 bits, so the text \<open>4294971831\<close> is read as 4535 and
  \<open>2147483648\<close> as -2147483648.
\<close>

definition atoi :: "string \<Rightarrow> c_int" where
  "atoi s = word_of_int (strtol s)"

text \<open>The conversion \<open>%d\<close> of \<open>printf\<close>.\<close>

definition digit_char :: "nat \<Rightarrow> char" where
  "digit_char d = ''0123456789'' ! d"

fun show_nat :: "nat \<Rightarrow> string" where
  "show_nat n = (if n < 10 then [digit_char n] else show_nat (n div 10) @ [digit_char (n mod 10)])"

declare show_nat.simps [simp del]

definition show_int :: "int \<Rightarrow> string" where
  "show_int i = (if i < 0 then CHR ''-'' # show_nat (nat (- i)) else show_nat (nat i))"

text \<open>The conversion of \<open>time_t\<close> to \<open>int\<close> in \<open>(int)time(NULL)\<close>.\<close>

definition int_of_time :: "int \<Rightarrow> c_int" where
  "int_of_time t = word_of_int t"

section \<open>The JSON helpers\<close>

text \<open>The text \<open>snprintf\<close> formats in \<open>json_add_string\<close> and \<open>json_add_int\<close>.\<close>

definition fmt_string :: "string \<Rightarrow> string \<Rightarrow> bool \<Rightarrow> string" where
  "fmt_string key val comma =
     (if comma then '','' else []) @ [DQ] @ key @ [DQ, CHR '':'', DQ] @ val @ [DQ]"

definition fmt_int :: "string \<Rightarrow> c_int \<Rightarrow> bool \<Rightarrow> string" where
  "fmt_int key val comma =
     (if comma then '','' else []) @ [DQ] @ key @ [DQ, CHR '':''] @ show_int (sint val)"

definition json_get_string :: "string \<Rightarrow> string \<Rightarrow> nat \<Rightarrow> string option" where
  "json_get_string json key maxlen =
     (let search = [DQ] @ key @ [DQ, CHR '':'', DQ] in
      case strstr json search of
        None \<Rightarrow> None
      | Some found \<Rightarrow>
          let start = drop (length search) found in
          (case strchr start DQ of
             None \<Rightarrow> None
           | Some end \<Rightarrow>
               let len = length start - length end;
                   len = (if len \<ge> maxlen then maxlen - 1 else len)
               in Some (take len start)))"

definition json_get_int :: "string \<Rightarrow> string \<Rightarrow> c_int" where
  "json_get_int json key =
     (let search = [DQ] @ key @ [DQ, CHR '':''] in
      case strstr json search of
        None \<Rightarrow> 0
      | Some found \<Rightarrow> atoi (drop (length search) found))"

section \<open>The service registry and the global state\<close>

record pn_service_t =
  id_s :: string
  service :: string
  ip :: string
  ctrl_port :: c_int
  data_port :: c_int
  caps :: string
  last_seen :: "32 word"
  active :: bool

text \<open>
  One invocation of the user callback \<open>pn_service_cb\<close>, with its arguments in order:
  id, service, ip, ctrl_port, data_port, caps, is_bye.
\<close>

datatype callback_call =
  Callback string string string c_int c_int string bool

text \<open>
  The fields of \<open>g_discovery\<close> that the message codec and the registry use.
  \<open>callback\<close> tells whether the callback pointer is non-NULL; \<open>services\<close> is the slot
  array, of \<open>PN_MAX_SERVICES\<close> entries.
\<close>

record discovery =
  announcing :: bool
  my_service :: pn_service_t
  callback :: bool
  services :: "pn_service_t list"
  local_ip :: string

definition zero_service :: pn_service_t where
  "zero_service =
     \<lparr>id_s = [], service = [], ip = [], ctrl_port = 0, data_port = 0, caps = [],
      last_seen = 0, active = False\<rparr>"

text \<open>The state after \<open>memset(&g_discovery, 0, ...)\<close> in \<open>pn_discovery_init\<close>.\<close>

definition init_discovery :: "string \<Rightarrow> discovery" where
  "init_discovery lip =
     \<lparr>announcing = False, my_service = zero_service, callback = False,
      services = replicate PN_MAX_SERVICES zero_service, local_ip = lip\<rparr>"

text \<open>
  The scan \<open>for (i = 0; i < PN_MAX_SERVICES; i++) if (P(services[i])) { idx = i; break; }\<close>
  over the slots from index \<open>i\<close> on.
\<close>

fun scan_slots :: "(pn_service_t \<Rightarrow> bool) \<Rightarrow> pn_service_t list \<Rightarrow> nat \<Rightarrow> nat option" where
  "scan_slots P [] i = None"
| "scan_slots P (s # ss) i = (if P s then Some i else scan_slots P ss (Suc i))"

section \<open>\<open>parse_message\<close>\<close>

text \<open>
  The two scans of the presence branch: the slot of the active record with the identity
  if there is one, else the first inactive slot, with \<open>is_new\<close> set as soon as the
  identity is not known. The index is \<open>None\<close> where the code leaves \<open>idx = -1\<close>.
\<close>

definition registry_lookup :: "pn_service_t list \<Rightarrow> string \<Rightarrow> nat option \<times> bool" where
  "registry_lookup ss ident =
     (case scan_slots (\<lambda>s. active s \<and> id_s s = ident) ss 0 of
        Some i \<Rightarrow> (Some i, False)
      | None \<Rightarrow> (scan_slots (\<lambda>s. \<not> active s) ss 0, True))"

text \<open>The block \<open>if (idx >= 0) { ... }\<close>, which fills the slot.\<close>

definition registry_store :: "pn_service_t list \<Rightarrow> nat option \<Rightarrow> pn_service_t \<Rightarrow> pn_service_t list" where
  "registry_store ss idx r = (case idx of None \<Rightarrow> ss | Some i \<Rightarrow> ss[i := r])"

text \<open>
  The presence branch. \<open>caps0\<close> is the content of the local buffer \<open>caps\<close> on entry: the
  buffer is not initialised, and stays as it was when the message has no \<open>caps\<close> key.
  \<open>sender_ip\<close> is the address printed by \<open>inet_ntop\<close>, shorter than the buffer \<open>ip\<close>
  it is copied to when the message has no \<open>ip\<close> key.
  The result is the return value, the new state and the callback invocations made.
\<close>

definition parse_helo ::
  "discovery \<Rightarrow> string \<Rightarrow> string \<Rightarrow> int \<Rightarrow> string \<Rightarrow> string \<Rightarrow> int \<times> discovery \<times> callback_call list"
where
  "parse_helo g caps0 sender_ip now buf ident =
     (case json_get_string buf ''svc'' PN_MAX_SERVICE_LEN of
        None \<Rightarrow> (-1, g, [])
      | Some svc \<Rightarrow>
          let ip_v = (case json_get_string buf ''ip'' PN_MAX_IP_LEN of
                        Some v \<Rightarrow> v
                      | None \<Rightarrow> strncpy sender_ip (PN_MAX_IP_LEN - 1));
              port = json_get_int buf ''port'';
              dport = json_get_int buf ''data'';
              caps_v = (case json_get_string buf ''caps'' PN_MAX_CAPS_LEN of
                          Some v \<Rightarrow> v
                        | None \<Rightarrow> caps0);
              (idx, is_new) = registry_lookup (services g) ident;
              g' = g\<lparr>services := registry_store (services g) idx
                         \<lparr>id_s = strncpy ident (PN_MAX_ID_LEN - 1),
                          service = strncpy svc (PN_MAX_SERVICE_LEN - 1),
                          ip = strncpy ip_v (PN_MAX_IP_LEN - 1),
                          ctrl_port = port,
                          data_port = dport,
                          caps = strncpy caps_v (PN_MAX_CAPS_LEN - 1),
                          last_seen = word_of_int now,
                          active = True\<rparr>\<rparr>
          in (0, g',
              if is_new \<and> callback g
              then [Callback ident svc ip_v port dport caps_v False] else []))"

text \<open>
  The loop of the departure branch: the first active slot with the identity is copied
  out (service, ip, control port) and marked inactive.
\<close>

fun bye_scan :: "string \<Rightarrow> pn_service_t list \<Rightarrow> pn_service_t list \<times> string \<times> string \<times> c_int" where
  "bye_scan ident [] = ([], [], [], 0)"
| "bye_scan ident (s # ss) =
     (if active s \<and> id_s s = ident
      then (s\<lparr>active := False\<rparr> # ss,
            strncpy (service s) (PN_MAX_SERVICE_LEN - 1),
            strncpy (ip s) (PN_MAX_IP_LEN - 1),
            ctrl_port s)
      else (case bye_scan ident ss of (ss', copy) \<Rightarrow> (s # ss', copy)))"

definition parse_bye :: "discovery \<Rightarrow> string \<Rightarrow> int \<times> discovery \<times> callback_call list" where
  "parse_bye g ident =
     (case bye_scan ident (services g) of
        (svcs', svc_copy, ip_copy, port_copy) \<Rightarrow>
          (0, g\<lparr>services := svcs'\<rparr>,
           if callback g \<and> svc_copy \<noteq> []
           then [Callback ident svc_copy ip_copy port_copy 0 [] True] else []))"

definition parse_message ::
  "discovery \<Rightarrow> string \<Rightarrow> string \<Rightarrow> int \<Rightarrow> char list \<Rightarrow> int \<times> discovery \<times> callback_call list"
where
  "parse_message g caps0 sender_ip now bytes =
     (let buf = c_str bytes in
      case json_get_string buf ''m'' 8 of
        None \<Rightarrow> (-1, g, [])
      | Some magic \<Rightarrow>
          if magic \<noteq> PN_MAGIC then (-1, g, [])
          else
            (case json_get_string buf ''cmd'' 16 of
               None \<Rightarrow> (-1, g, [])
             | Some cmd \<Rightarrow>
                 (case json_get_string buf ''id'' PN_MAX_ID_LEN of
                    None \<Rightarrow> (-1, g, [])
                  | Some ident \<Rightarrow>
                      if announcing g \<and> ident = id_s (my_service g) then (0, g, [])
                      else if cmd = ''helo'' then parse_helo g caps0 sender_ip now buf ident
                      else if cmd = ''bye'' then parse_bye g ident
                      else (0, g, []))))"

section \<open>Registry queries\<close>

text \<open>
  The loop of \<open>pn_get_services\<close>: \<open>ss\<close> are the slots from the current index on,
  \<open>out\<close> the entries copied so far (\<open>count\<close> is its length).
\<close>

fun get_services_loop :: "pn_service_t list \<Rightarrow> int \<Rightarrow> pn_service_t list \<Rightarrow> pn_service_t list" where
  "get_services_loop [] max_count out = out"
| "get_services_loop (s # ss) max_count out =
     (if int (length out) < max_count
      then (if active s then get_services_loop ss max_count (out @ [s])
            else get_services_loop ss max_count out)
      else out)"

text \<open>The entries written to \<open>out\<close>, in order; the return value is their number.\<close>

definition pn_get_services :: "discovery \<Rightarrow> int \<Rightarrow> pn_service_t list" where
  "pn_get_services g max_count = get_services_loop (services g) max_count []"

fun count_loop :: "pn_service_t list \<Rightarrow> int \<Rightarrow> int" where
  "count_loop [] count = count"
| "count_loop (s # ss) count = (if active s then count_loop ss (count + 1) else count_loop ss count)"

definition pn_get_service_count :: "discovery \<Rightarrow> int" where
  "pn_get_service_count g = count_loop (services g) 0"

section \<open>The listener\<close>

text \<open>
  One received datagram: the bytes \<open>recvfrom\<close> returned (at most
  \<open>PN_MAX_MSG_LEN - 1\<close>, that is 1023, of them: a longer datagram arrives cut to that
  length), the sender address as printed by \<open>inet_ntop\<close>, the clock when it is
  processed, and the content of the uninitialised \<open>caps\<close> buffer of \<open>parse_message\<close>
  at that call.
\<close>

record datagram =
  dg_bytes :: "char list"
  dg_sender_ip :: string
  dg_time :: int
  dg_stack_caps :: string

text \<open>
  The body of the loop of \<open>listen_thread_func\<close> on the datagrams received, in order:
  a datagram of positive length is terminated with NUL and handed to
  \<open>parse_message\<close>, whose return value is ignored.
\<close>

fun listen_loop :: "discovery \<Rightarrow> datagram list \<Rightarrow> discovery \<times> callback_call list" where
  "listen_loop g [] = (g, [])"
| "listen_loop g (d # ds) =
     (if length (dg_bytes d) > 0
      then (case parse_message g (dg_stack_caps d) (dg_sender_ip d) (dg_time d) (dg_bytes d) of
              (rc, g', calls) \<Rightarrow>
                (case listen_loop g' ds of (g'', calls') \<Rightarrow> (g'', calls @ calls')))
      else listen_loop g ds)"

section \<open>The encoder\<close>

text \<open>
  The output buffer is a byte array \<open>mem\<close>; its length is the memory that really
  belongs to it. A write at an index outside the array is the result \<open>None\<close>.
\<close>

definition poke :: "char list \<Rightarrow> int \<Rightarrow> char \<Rightarrow> char list option" where
  "poke mem i c = (if 0 \<le> i \<and> i < int (length mem) then Some (mem[nat i := c]) else None)"

fun poke_all :: "char list \<Rightarrow> int \<Rightarrow> string \<Rightarrow> char list option" where
  "poke_all mem i [] = Some mem"
| "poke_all mem i (c # cs) =
     (case poke mem i c of None \<Rightarrow> None | Some mem' \<Rightarrow> poke_all mem' (i + 1) cs)"

text \<open>The conversion of the \<open>int\<close> argument \<open>maxlen - pos\<close> to \<open>size_t\<close> (64 bits).\<close>

definition size_t_of_int :: "int \<Rightarrow> nat" where
  "size_t_of_int i = nat (i mod 2 ^ 64)"

text \<open>
  \<open>snprintf(buf + pos, n, ...)\<close> for the formatted text \<open>txt\<close>: with a size of zero
  nothing is written; otherwise at most \<open>size - 1\<close> characters and a NUL are. The value
  returned is the length of the whole text.
\<close>

definition snprintf :: "char list \<Rightarrow> int \<Rightarrow> int \<Rightarrow> string \<Rightarrow> (char list \<times> int) option" where
  "snprintf mem pos n txt =
     (let sz = size_t_of_int n in
      if sz = 0 then Some (mem, int (length txt))
      else (case poke_all mem pos (take (sz - 1) txt @ [NUL]) of
              None \<Rightarrow> None
            | Some mem' \<Rightarrow> Some (mem', int (length txt))))"

definition json_add_string ::
  "char list \<Rightarrow> int \<Rightarrow> int \<Rightarrow> string \<Rightarrow> string \<Rightarrow> bool \<Rightarrow> (char list \<times> int) option"
where
  "json_add_string mem pos maxlen key val comma =
     (case snprintf mem pos (maxlen - pos) (fmt_string key val comma) of
        None \<Rightarrow> None
      | Some (mem', n) \<Rightarrow> Some (mem', if n > 0 \<and> pos + n < maxlen then pos + n else -1))"

definition json_add_int ::
  "char list \<Rightarrow> int \<Rightarrow> int \<Rightarrow> string \<Rightarrow> c_int \<Rightarrow> bool \<Rightarrow> (char list \<times> int) option"
where
  "json_add_int mem pos maxlen key val comma =
     (case snprintf mem pos (maxlen - pos) (fmt_int key val comma) of
        None \<Rightarrow> None
      | Some (mem', n) \<Rightarrow> Some (mem', if n > 0 \<and> pos + n < maxlen then pos + n else -1))"

text \<open>
  The step \<open>pos = ...; if (pos < 0) return -1;\<close> followed by the rest of the function.
\<close>

definition and_then ::
  "(char list \<times> int) option \<Rightarrow> (char list \<Rightarrow> int \<Rightarrow> (char list \<times> int) option)
     \<Rightarrow> (char list \<times> int) option"
where
  "and_then r rest =
     (case r of
        None \<Rightarrow> None
      | Some (mem, pos) \<Rightarrow> if pos < 0 then Some (mem, -1) else rest mem pos)"

text \<open>The closing brace and the terminator, common to both messages.\<close>

definition close_message :: "char list \<Rightarrow> int \<Rightarrow> int \<Rightarrow> (char list \<times> int) option" where
  "close_message mem pos maxlen =
     (if pos + 1 \<ge> maxlen then Some (mem, -1)
      else (case poke mem pos (CHR ''}'') of
              None \<Rightarrow> None
            | Some mem1 \<Rightarrow>
                (case poke mem1 (pos + 1) NUL of
                   None \<Rightarrow> None
                 | Some mem2 \<Rightarrow> Some (mem2, pos + 1))))"

text \<open>
  \<open>build_helo_message\<close> and \<open>build_bye_message\<close>: the new content of the buffer and the
  value returned (the length of the message, or \<open>-1\<close>); \<open>now\<close> is \<open>time(NULL)\<close>.
\<close>

definition build_helo_message :: "discovery \<Rightarrow> int \<Rightarrow> char list \<Rightarrow> int \<Rightarrow> (char list \<times> int) option" where
  "build_helo_message g now buf maxlen =
     (case poke buf 0 (CHR ''{'') of
        None \<Rightarrow> None
      | Some b0 \<Rightarrow>
     and_then (json_add_string b0 1 maxlen ''m'' PN_MAGIC False) (\<lambda>b pos.
     and_then (json_add_int b pos maxlen ''v'' PN_VERSION True) (\<lambda>b pos.
     and_then (json_add_string b pos maxlen ''cmd'' ''helo'' True) (\<lambda>b pos.
     and_then (json_add_string b pos maxlen ''id'' (id_s (my_service g)) True) (\<lambda>b pos.
     and_then (json_add_string b pos maxlen ''svc'' (service (my_service g)) True) (\<lambda>b pos.
     and_then (json_add_string b pos maxlen ''ip'' (local_ip g) True) (\<lambda>b pos.
     and_then (json_add_int b pos maxlen ''port'' (ctrl_port (my_service g)) True) (\<lambda>b pos.
     and_then (if sint (data_port (my_service g)) > 0
               then json_add_int b pos maxlen ''data'' (data_port (my_service g)) True
               else Some (b, pos)) (\<lambda>b pos.
     and_then (if caps (my_service g) \<noteq> []
               then json_add_string b pos maxlen ''caps'' (caps (my_service g)) True
               else Some (b, pos)) (\<lambda>b pos.
     and_then (json_add_int b pos maxlen ''ts'' (int_of_time now) True) (\<lambda>b pos.
     close_message b pos maxlen)))))))))))"

definition build_bye_message :: "discovery \<Rightarrow> int \<Rightarrow> char list \<Rightarrow> int \<Rightarrow> (char list \<times> int) option" where
  "build_bye_message g now buf maxlen =
     (case poke buf 0 (CHR ''{'') of
        None \<Rightarrow> None
      | Some b0 \<Rightarrow>
     and_then (json_add_string b0 1 maxlen ''m'' PN_MAGIC False) (\<lambda>b pos.
     and_then (json_add_int b pos maxlen ''v'' PN_VERSION True) (\<lambda>b pos.
     and_then (json_add_string b pos maxlen ''cmd'' ''bye'' True) (\<lambda>b pos.
     and_then (json_add_string b pos maxlen ''id'' (id_s (my_service g)) True) (\<lambda>b pos.
     and_then (json_add_int b pos maxlen ''ts'' (int_of_time now) True) (\<lambda>b pos.
     close_message b pos maxlen))))))"

text \<open>
  The datagram \<open>announce_thread_func\<close> broadcasts:
  \<open>len = build_helo_message(msg, sizeof(msg)); if (len > 0) broadcast_message(msg, len);\<close>
\<close>

definition announce_datagram :: "discovery \<Rightarrow> int \<Rightarrow> char list \<Rightarrow> int \<Rightarrow> char list option" where
  "announce_datagram g now msg maxlen =
     (case build_helo_message g now msg maxlen of
        None \<Rightarrow> None
      | Some (msg', len) \<Rightarrow> if len > 0 then Some (take (nat len) msg') else None)"

section \<open>Notions of the specification\<close>

text \<open>The complete text of a presence message and of a departure message.\<close>

definition helo_text :: "discovery \<Rightarrow> int \<Rightarrow> string" where
  "helo_text g now =
     ''{'' @ fmt_string ''m'' PN_MAGIC False @ fmt_int ''v'' PN_VERSION True
     @ fmt_string ''cmd'' ''helo'' True
     @ fmt_string ''id'' (id_s (my_service g)) True
     @ fmt_string ''svc'' (service (my_service g)) True
     @ fmt_string ''ip'' (local_ip g) True
     @ fmt_int ''port'' (ctrl_port (my_service g)) True
     @ (if sint (data_port (my_service g)) > 0
        then fmt_int ''data'' (data_port (my_service g)) True else [])
     @ (if caps (my_service g) \<noteq> [] then fmt_string ''caps'' (caps (my_service g)) True else [])
     @ fmt_int ''ts'' (int_of_time now) True @ ''}''"

definition bye_text :: "discovery \<Rightarrow> int \<Rightarrow> string" where
  "bye_text g now =
     ''{'' @ fmt_string ''m'' PN_MAGIC False @ fmt_int ''v'' PN_VERSION True
     @ fmt_string ''cmd'' ''bye'' True
     @ fmt_string ''id'' (id_s (my_service g)) True
     @ fmt_int ''ts'' (int_of_time now) True @ ''}''"

text \<open>
  The states of the encoder, for a buffer that was \<open>mem\<close> on entry. \<open>enc_good\<close>: the
  text \<open>txt\<close> has been written and \<open>pos\<close> is its length. \<open>enc_built\<close>: a step has
  returned, either with \<open>-1\<close>, the text being too long for \<open>maxlen\<close>, or in a good
  state. \<open>enc_final\<close>: the function has returned; the message \<open>full\<close> is complete and
  terminated when it fits, and the value is \<open>-1\<close> when it does not. In all of them no
  write went outside the buffer and the bytes from \<open>maxlen\<close> on are those of \<open>mem\<close>.
\<close>

definition enc_good :: "char list \<Rightarrow> int \<Rightarrow> string \<Rightarrow> char list \<Rightarrow> int \<Rightarrow> bool" where
  "enc_good mem maxlen txt b pos =
     (length b = length mem \<and> drop (nat maxlen) b = drop (nat maxlen) mem
      \<and> pos = int (length txt) \<and> pos \<le> maxlen \<and> take (length txt) b = txt)"

definition enc_built :: "char list \<Rightarrow> int \<Rightarrow> string \<Rightarrow> (char list \<times> int) option \<Rightarrow> bool" where
  "enc_built mem maxlen txt r =
     (case r of
        None \<Rightarrow> False
      | Some (b, pos) \<Rightarrow>
          if pos = -1
          then length b = length mem \<and> drop (nat maxlen) b = drop (nat maxlen) mem
               \<and> maxlen \<le> int (length txt)
          else enc_good mem maxlen txt b pos)"

definition enc_final :: "char list \<Rightarrow> int \<Rightarrow> string \<Rightarrow> (char list \<times> int) option \<Rightarrow> bool" where
  "enc_final mem maxlen full r =
     (case r of
        None \<Rightarrow> False
      | Some (b, p) \<Rightarrow>
          length b = length mem \<and> drop (nat maxlen) b = drop (nat maxlen) mem
          \<and> (if int (length full) < maxlen
               then p = int (length full) \<and> take (length full) b = full \<and> b ! length full = NUL
               else p = -1))"

text \<open>What follows a field in a message: nothing, a comma or the closing brace.\<close>

definition field_end :: "string \<Rightarrow> bool" where
  "field_end r = (case r of [] \<Rightarrow> True | c # _ \<Rightarrow> c = CHR '','' \<or> c = CHR ''}'')"

text \<open>The active records of an identity, in slot order.\<close>

definition active_records :: "discovery \<Rightarrow> string \<Rightarrow> pn_service_t list" where
  "active_records g ident = filter (\<lambda>s. active s \<and> id_s s = ident) (services g)"

text \<open>No two active records share an identity.\<close>

definition unique_ids :: "discovery \<Rightarrow> bool" where
  "unique_ids g = distinct (map id_s (filter active (services g)))"

text \<open>The slots after every active record of an identity has been marked inactive.\<close>

definition mark_inactive :: "string \<Rightarrow> pn_service_t list \<Rightarrow> pn_service_t list" where
  "mark_inactive ident ss =
     map (\<lambda>s. if active s \<and> id_s s = ident then s\<lparr>active := False\<rparr> else s) ss"



section \<open>Concrete states and messages\<close>

definition helo_X :: string where
  \<open>helo_X = ''{"m":"PNSD","v":1,"cmd":"helo","id":"X","svc":"sdr_server","ip":"10.0.0.9","port":4535,"data":4536,"caps":"c","ts":0}''\<close>

definition bye_X :: string where
  \<open>bye_X = ''{"m":"PNSD","v":1,"cmd":"bye","id":"X","ts":0}''\<close>

definition helo_no_svc :: string where
  \<open>helo_no_svc = ''{"m":"PNSD","v":1,"cmd":"helo","id":"X","ip":"10.0.0.9","port":4535,"ts":0}''\<close>

definition helo_bad_magic :: string where
  \<open>helo_bad_magic = ''{"m":"XXXX","v":1,"cmd":"helo","id":"X","svc":"sdr_server","ip":"10.0.0.9","port":4535,"ts":0}''\<close>


text \<open>A presence message whose port texts are outside the range of \<open>int\<close>.\<close>

definition helo_X_wide :: string where
  \<open>helo_X_wide = ''{"m":"PNSD","v":1,"cmd":"helo","id":"X","svc":"waterfall","port":4294971831,"data":2147483648,"caps":"d","ts":9}''\<close>

definition datagram_of :: "string \<Rightarrow> int \<Rightarrow> datagram" where
  "datagram_of txt t =
     \<lparr>dg_bytes = txt, dg_sender_ip = ''10.0.0.9'', dg_time = t, dg_stack_caps = []\<rparr>"

text \<open>The record a listener holds for the peer \<open>X\<close> after \<open>helo_X\<close>.\<close>

definition record_X :: pn_service_t where
  "record_X =
     \<lparr>id_s = ''X'', service = ''sdr_server'', ip = ''10.0.0.9'', ctrl_port = 4535,
      data_port = 4536, caps = ''c'', last_seen = 0, active = True\<rparr>"

text \<open>A listening instance that knows no peer, and one that knows \<open>X\<close> in slot 0.\<close>

definition listener :: discovery where
  "listener = (init_discovery ''10.0.0.2'')\<lparr>callback := True\<rparr>"

definition listener_knows_X :: discovery where
  "listener_knows_X = listener\<lparr>services := (services listener)[0 := record_X]\<rparr>"

text \<open>The instance \<open>X\<close> itself, announcing and listening.\<close>

definition announcer_X :: discovery where
  "announcer_X =
     (init_discovery ''10.0.0.9'')\<lparr>announcing := True, my_service := record_X, callback := True\<rparr>"

text \<open>An announcing instance whose identity holds a double quote, and its presence message.\<close>

definition announcer_quote :: discovery where
  \<open>announcer_quote = announcer_X\<lparr>my_service := record_X\<lparr>id_s := ''a"b''\<rparr>\<rparr>\<close>

definition helo_quote :: string where
  \<open>helo_quote = ''{"m":"PNSD","v":1,"cmd":"helo","id":"a"b","svc":"sdr_server","ip":"10.0.0.9","port":4535,"data":4536,"caps":"c","ts":0}''\<close>

text \<open>The buffer \<open>char msg[PN_MAX_MSG_LEN]\<close> of the announce thread.\<close>

definition msg_buffer :: "char list" where
  "msg_buffer = replicate (nat PN_MAX_MSG_LEN) NUL"

text \<open>A listening instance whose \<open>PN_MAX_SERVICES\<close> slots all hold active peers.\<close>

definition peer_slot :: "nat \<Rightarrow> pn_service_t" where
  "peer_slot n =
     \<lparr>id_s = ''peer'' @ show_nat n, service = ''waterfall'', ip = ''10.0.0.1'',
      ctrl_port = 0, data_port = 0, caps = [], last_seen = 0, active = True\<rparr>"

definition full_registry :: discovery where
  "full_registry =
     \<lparr>announcing = False, my_service = zero_service, callback = True,
      services = map peer_slot [0..<PN_MAX_SERVICES], local_ip = ''10.0.0.2''\<rparr>"

section \<open>Facts about the library functions and the JSON helpers\<close>

lemma strstr_Some_D:
  "strstr s pat = Some found \<Longrightarrow> \<exists>pre. s = pre @ found \<and> prefix pat found"
proof (induction s)
  case Nil
  then show ?case by (simp split: if_splits)
next
  case (Cons c cs)
  show ?case
  proof (cases "prefix pat (c # cs)")
    case True
    with Cons.prems show ?thesis by auto
  next
    case False
    with Cons.prems have "strstr cs pat = Some found" by simp
    from Cons.IH [OF this] obtain pre where "cs = pre @ found" "prefix pat found" by blast
    then have "c # cs = (c # pre) @ found \<and> prefix pat found" by simp
    then show ?thesis by blast
  qed
qed

lemma strstr_None_iff: "strstr s pat = None \<longleftrightarrow> \<not> sublist pat s"
proof (induction s)
  case Nil
  then show ?case by simp
next
  case (Cons c cs)
  then show ?case by (simp add: sublist_Cons_right)
qed

lemma strchr_Some_D:
  "strchr s ch = Some e \<Longrightarrow> \<exists>v r. s = v @ ch # r \<and> e = ch # r \<and> ch \<notin> set v"
proof (induction s)
  case Nil
  then show ?case by simp
next
  case (Cons c cs)
  show ?case
  proof (cases "c = ch")
    case True
    with Cons.prems show ?thesis by auto
  next
    case False
    with Cons.prems have "strchr cs ch = Some e" by simp
    from Cons.IH [OF this] obtain v r where "cs = v @ ch # r" "e = ch # r" "ch \<notin> set v" by blast
    with False have "c # cs = (c # v) @ ch # r \<and> e = ch # r \<and> ch \<notin> set (c # v)" by simp
    then show ?thesis by blast
  qed
qed

text \<open>What a successful \<open>json_get_string\<close> says about the text.\<close>

lemma json_get_string_Some_D:
  assumes "json_get_string json key maxlen = Some v"
  shows "\<exists>pre w post. json = pre @ [DQ] @ key @ [DQ, CHR '':'', DQ] @ w @ DQ # post
           \<and> DQ \<notin> set w \<and> v = take (if length w \<ge> maxlen then maxlen - 1 else length w) w"
proof -
  let ?search = "[DQ] @ key @ [DQ, CHR '':'', DQ]"
  from assms obtain found where f: "strstr json ?search = Some found"
    by (auto simp: json_get_string_def Let_def split: option.splits)
  from strstr_Some_D [OF f] obtain pre start where j: "json = pre @ found" and fs: "found = ?search @ start"
    by (auto simp: prefix_def)
  from fs have d: "drop (length ?search) found = start" by simp
  from assms f d obtain e where e: "strchr start DQ = Some e"
    and v: "v = take (if length start - length e \<ge> maxlen then maxlen - 1 else length start - length e) start"
    by (auto simp: json_get_string_def Let_def split: option.splits)
  from strchr_Some_D [OF e] obtain w r where s: "start = w @ DQ # r" and er: "e = DQ # r" and nw: "DQ \<notin> set w"
    by blast
  have len: "length start - length e = length w" using s er by simp
  have "v = take (if length w \<ge> maxlen then maxlen - 1 else length w) w"
    using v len s by (auto simp: Let_def)
  with j fs s nw show ?thesis by auto
qed


lemma json_get_string_None_absent:
  "\<not> sublist ([DQ] @ key @ [DQ, CHR '':'', DQ]) json \<Longrightarrow> json_get_string json key maxlen = None"
  using strstr_None_iff [of json "[DQ] @ key @ [DQ, CHR '':'', DQ]"]
  by (simp add: json_get_string_def)

text \<open>An accepted protocol tag stands in the text as it is.\<close>

lemma magic_sublist:
  assumes "json_get_string json ''m'' 8 = Some PN_MAGIC"
  shows "sublist ([DQ] @ ''m'' @ [DQ, CHR '':'', DQ] @ PN_MAGIC @ [DQ]) json"
proof -
  from json_get_string_Some_D [OF assms] obtain pre w post where
    j: "json = pre @ [DQ] @ ''m'' @ [DQ, CHR '':'', DQ] @ w @ DQ # post"
    and w: "PN_MAGIC = take (if length w \<ge> 8 then 8 - 1 else length w) w"
    by blast
  have "length w < 8"
  proof (rule ccontr)
    assume "\<not> length w < 8"
    with w have "PN_MAGIC = take 7 w" by simp
    then have "length PN_MAGIC = length (take 7 w)" by simp
    with \<open>\<not> length w < 8\<close> show False by simp
  qed
  with w have "w = PN_MAGIC" by simp
  with j have "json = pre @ ([DQ] @ ''m'' @ [DQ, CHR '':'', DQ] @ PN_MAGIC @ [DQ]) @ post" by simp
  then show ?thesis unfolding sublist_def by blast
qed

section \<open>Facts about the registry loops\<close>

lemma get_services_loop_eq:
  "get_services_loop ss m out = out @ take (nat m - length out) (filter active ss)"
proof (induction ss arbitrary: out)
  case Nil
  then show ?case by simp
next
  case (Cons s ss)
  show ?case
  proof (cases "int (length out) < m")
    case True
    then have "nat m - length out = Suc (nat m - Suc (length out))" by linarith
    with True Cons.IH show ?thesis by simp
  next
    case False
    then have "nat m - length out = 0" by linarith
    with False show ?thesis by simp
  qed
qed

lemma bye_scan_absent:
  "\<forall>s\<in>set ss. \<not> (active s \<and> id_s s = ident) \<Longrightarrow> bye_scan ident ss = (ss, [], [], 0)"
  by (induction ss) auto

lemma scan_slots_None_iff: "scan_slots P ss i = None \<longleftrightarrow> (\<forall>s\<in>set ss. \<not> P s)"
  by (induction ss arbitrary: i) auto


lemma count_loop_eq: "count_loop ss c = c + int (length (filter active ss))"
  by (induction ss arbitrary: c) auto

lemma bye_scan_cases:
  "(\<forall>s\<in>set ss. \<not> (active s \<and> id_s s = ident)) \<and> bye_scan ident ss = (ss, [], [], 0)
   \<or> (\<exists>pre r post. ss = pre @ r # post \<and> (\<forall>s\<in>set pre. \<not> (active s \<and> id_s s = ident))
         \<and> active r \<and> id_s r = ident
         \<and> bye_scan ident ss =
             (pre @ r\<lparr>active := False\<rparr> # post, strncpy (service r) (PN_MAX_SERVICE_LEN - 1),
              strncpy (ip r) (PN_MAX_IP_LEN - 1), ctrl_port r))"
proof (induction ss)
  case Nil
  then show ?case by simp
next
  case (Cons a ss)
  show ?case
  proof (cases "active a \<and> id_s a = ident")
    case True
    then have "a # ss = [] @ a # ss \<and> (\<forall>s\<in>set []. \<not> (active s \<and> id_s s = ident))
         \<and> active a \<and> id_s a = ident
         \<and> bye_scan ident (a # ss) =
             ([] @ a\<lparr>active := False\<rparr> # ss, strncpy (service a) (PN_MAX_SERVICE_LEN - 1),
              strncpy (ip a) (PN_MAX_IP_LEN - 1), ctrl_port a)" by simp
    then show ?thesis by blast
  next
    case False
    from Cons.IH show ?thesis
    proof
      assume "(\<forall>s\<in>set ss. \<not> (active s \<and> id_s s = ident)) \<and> bye_scan ident ss = (ss, [], [], 0)"
      with False have "(\<forall>s\<in>set (a # ss). \<not> (active s \<and> id_s s = ident))
          \<and> bye_scan ident (a # ss) = (a # ss, [], [], 0)" by auto
      then show ?thesis by blast
    next
      assume "\<exists>pre r post. ss = pre @ r # post \<and> (\<forall>s\<in>set pre. \<not> (active s \<and> id_s s = ident))
         \<and> active r \<and> id_s r = ident
         \<and> bye_scan ident ss =
             (pre @ r\<lparr>active := False\<rparr> # post, strncpy (service r) (PN_MAX_SERVICE_LEN - 1),
              strncpy (ip r) (PN_MAX_IP_LEN - 1), ctrl_port r)"
      then obtain pre r post where p: "ss = pre @ r # post" "\<forall>s\<in>set pre. \<not> (active s \<and> id_s s = ident)"
         "active r" "id_s r = ident"
         "bye_scan ident ss =
             (pre @ r\<lparr>active := False\<rparr> # post, strncpy (service r) (PN_MAX_SERVICE_LEN - 1),
              strncpy (ip r) (PN_MAX_IP_LEN - 1), ctrl_port r)" by blast
      with False have "a # ss = (a # pre) @ r # post \<and> (\<forall>s\<in>set (a # pre). \<not> (active s \<and> id_s s = ident))
         \<and> active r \<and> id_s r = ident
         \<and> bye_scan ident (a # ss) =
             ((a # pre) @ r\<lparr>active := False\<rparr> # post, strncpy (service r) (PN_MAX_SERVICE_LEN - 1),
              strncpy (ip r) (PN_MAX_IP_LEN - 1), ctrl_port r)" by auto
      then show ?thesis by blast
    qed
  qed
qed

lemma mark_inactive_single:
  assumes "\<forall>s\<in>set pre. \<not> (active s \<and> id_s s = ident)"
    and "\<forall>s\<in>set post. \<not> (active s \<and> id_s s = ident)"
    and "active r" "id_s r = ident"
  shows "mark_inactive ident (pre @ r # post) = pre @ r\<lparr>active := False\<rparr> # post"
proof -
  have "map (\<lambda>s. if active s \<and> id_s s = ident then s\<lparr>active := False\<rparr> else s) pre = pre"
    using assms(1) by (intro map_idI) auto
  moreover have "map (\<lambda>s. if active s \<and> id_s s = ident then s\<lparr>active := False\<rparr> else s) post = post"
    using assms(2) by (intro map_idI) auto
  ultimately show ?thesis using assms(3,4) by (simp add: mark_inactive_def)
qed

lemma bye_scan_single:
  assumes "filter (\<lambda>s. active s \<and> id_s s = ident) ss = [r]"
  shows "bye_scan ident ss =
           (mark_inactive ident ss, strncpy (service r) (PN_MAX_SERVICE_LEN - 1),
            strncpy (ip r) (PN_MAX_IP_LEN - 1), ctrl_port r)"
proof -
  from bye_scan_cases [of ss ident] show ?thesis
  proof
    assume "(\<forall>s\<in>set ss. \<not> (active s \<and> id_s s = ident)) \<and> bye_scan ident ss = (ss, [], [], 0)"
    then have "filter (\<lambda>s. active s \<and> id_s s = ident) ss = []" by (simp add: filter_empty_conv)
    with assms show ?thesis by simp
  next
    assume "\<exists>pre r post. ss = pre @ r # post \<and> (\<forall>s\<in>set pre. \<not> (active s \<and> id_s s = ident))
         \<and> active r \<and> id_s r = ident
         \<and> bye_scan ident ss =
             (pre @ r\<lparr>active := False\<rparr> # post, strncpy (service r) (PN_MAX_SERVICE_LEN - 1),
              strncpy (ip r) (PN_MAX_IP_LEN - 1), ctrl_port r)"
    then obtain pre r' post where p: "ss = pre @ r' # post" "\<forall>s\<in>set pre. \<not> (active s \<and> id_s s = ident)"
         "active r'" "id_s r' = ident"
         "bye_scan ident ss =
             (pre @ r'\<lparr>active := False\<rparr> # post, strncpy (service r') (PN_MAX_SERVICE_LEN - 1),
              strncpy (ip r') (PN_MAX_IP_LEN - 1), ctrl_port r')" by blast
    from p(2) have fp: "filter (\<lambda>s. active s \<and> id_s s = ident) pre = []" by (simp add: filter_empty_conv)
    from assms p(1,3,4) fp have "r' # filter (\<lambda>s. active s \<and> id_s s = ident) post = [r]" by simp
    then have rr: "r' = r" and "filter (\<lambda>s. active s \<and> id_s s = ident) post = []" by simp_all
    then have np: "\<forall>s\<in>set post. \<not> (active s \<and> id_s s = ident)" by (simp add: filter_empty_conv)
    from mark_inactive_single [OF p(2) np p(3,4)] p(1,5) rr show ?thesis by simp
  qed
qed


lemma registry_lookup_full:
  assumes "\<forall>s\<in>set ss. active s \<and> id_s s \<noteq> ident"
  shows "registry_lookup ss ident = (None, True)"
proof -
  have "scan_slots (\<lambda>s. active s \<and> id_s s = ident) ss 0 = None"
    using assms by (simp add: scan_slots_None_iff)
  moreover have "scan_slots (\<lambda>s. \<not> active s) ss 0 = None"
    using assms by (simp add: scan_slots_None_iff)
  ultimately show ?thesis by (simp add: registry_lookup_def)
qed











lemma unique_ids_init: "unique_ids (init_discovery lip)"
  by (simp add: unique_ids_def init_discovery_def zero_service_def)

text \<open>
  A presence message of an unknown identity, received when every slot is active: the
  state stays as it is, and the callback, when there is one, is invoked all the same.
\<close>

lemma parse_message_registry_full:
  assumes "json_get_string (c_str bytes) ''m'' 8 = Some PN_MAGIC"
    and "json_get_string (c_str bytes) ''cmd'' 16 = Some ''helo''"
    and "json_get_string (c_str bytes) ''id'' PN_MAX_ID_LEN = Some ident"
    and "json_get_string (c_str bytes) ''svc'' PN_MAX_SERVICE_LEN = Some svc"
    and "\<not> (announcing g \<and> ident = id_s (my_service g))"
    and "\<forall>s\<in>set (services g). active s \<and> id_s s \<noteq> ident"
  shows "fst (parse_message g caps0 sender_ip now bytes) = 0"
    and "fst (snd (parse_message g caps0 sender_ip now bytes)) = g"
    and "length (snd (snd (parse_message g caps0 sender_ip now bytes))) = (if callback g then 1 else 0)"
proof -
  have pm: "parse_message g caps0 sender_ip now bytes =
              parse_helo g caps0 sender_ip now (c_str bytes) ident"
    using assms(1,2,3,5) by (auto simp: parse_message_def Let_def)
  from registry_lookup_full [OF assms(6)]
  have lk: "registry_lookup (services g) ident = (None, True)" .
  show "fst (parse_message g caps0 sender_ip now bytes) = 0"
    unfolding pm using assms(4) by (simp add: parse_helo_def Let_def case_prod_unfold)
  show "fst (snd (parse_message g caps0 sender_ip now bytes)) = g"
    unfolding pm using assms(4) lk by (simp add: parse_helo_def Let_def registry_store_def)
  show "length (snd (snd (parse_message g caps0 sender_ip now bytes))) = (if callback g then 1 else 0)"
    unfolding pm using assms(4) lk by (simp add: parse_helo_def Let_def)
qed


section \<open>Decoding\<close>

text \<open>
  C5. A received byte sequence whose text does not hold the protocol tag
  \<open>"m":"PNSD"\<close> (the key is absent, or its value is another one), or from which
  the decoder reads a tag other than \<open>PNSD\<close>, is rejected: \<open>parse_message\<close> returns
  \<open>-1\<close>, the state is the one before, and no callback is invoked, whatever else the
  message holds.
\<close>

theorem parse_message_bad_magic:
  assumes "\<not> sublist ([DQ] @ ''m'' @ [DQ, CHR '':'', DQ] @ PN_MAGIC @ [DQ]) (c_str bytes)
           \<or> json_get_string (c_str bytes) ''m'' 8 \<noteq> Some PN_MAGIC"
  shows "parse_message g caps0 sender_ip now bytes = (-1, g, [])"
proof -
  from assms have "json_get_string (c_str bytes) ''m'' 8 \<noteq> Some PN_MAGIC"
    using magic_sublist by blast
  then show ?thesis
    by (auto simp: parse_message_def Let_def split: option.splits)
qed

theorem parse_message_bad_magic_witness:
  "\<not> sublist ([DQ] @ ''m'' @ [DQ, CHR '':'', DQ] @ PN_MAGIC @ [DQ]) (c_str helo_bad_magic)
   \<and> parse_message listener [] ''10.0.0.9'' 0 helo_bad_magic = (-1, listener, [])"
proof -
  have h: "\<not> sublist ([DQ] @ ''m'' @ [DQ, CHR '':'', DQ] @ PN_MAGIC @ [DQ]) (c_str helo_bad_magic)"
    by code_simp
  from h have "parse_message listener [] ''10.0.0.9'' 0 helo_bad_magic = (-1, listener, [])"
    by (intro parse_message_bad_magic disjI1)
  with h show ?thesis by blast
qed

text \<open>
  C6. A message whose decoded identity is the identity of the local service, received
  while the instance is announcing, changes nothing in the state and invokes no
  callback, whatever service type, ports and capabilities it carries.
\<close>

theorem parse_message_self_suppression:
  assumes "announcing g"
    and "json_get_string (c_str bytes) ''id'' PN_MAX_ID_LEN = Some (id_s (my_service g))"
  shows "snd (parse_message g caps0 sender_ip now bytes) = (g, [])"
  using assms by (auto simp: parse_message_def Let_def split: option.splits)

theorem parse_message_self_suppression_witness:
  "announcing announcer_X
   \<and> json_get_string (c_str helo_X) ''id'' PN_MAX_ID_LEN = Some (id_s (my_service announcer_X))
   \<and> parse_message announcer_X [] ''10.0.0.9'' 0 helo_X = (0, announcer_X, [])"
proof -
  have a: "announcing announcer_X" by code_simp
  have i: "json_get_string (c_str helo_X) ''id'' PN_MAX_ID_LEN = Some (id_s (my_service announcer_X))"
    by code_simp
  have r: "fst (parse_message announcer_X [] ''10.0.0.9'' 0 helo_X) = 0" by code_simp
  from parse_message_self_suppression [OF a i]
  have "snd (parse_message announcer_X [] ''10.0.0.9'' 0 helo_X) = (announcer_X, [])" .
  with r have "parse_message announcer_X [] ''10.0.0.9'' 0 helo_X = (0, announcer_X, [])"
    by (metis prod.collapse)
  with a i show ?thesis by blast
qed

text \<open>
  C10, as amended. A presence message with a valid protocol tag, the command \<open>helo\<close>
  and an identity, but without the key \<open>svc\<close>, never reaches the registry: the state
  is the one before and no callback is invoked. \<open>parse_message\<close> returns \<open>-1\<close>, unless
  the identity is the one the instance is announcing: then the message is dropped by
  the self-suppression check, which comes first, and the value returned is \<open>0\<close>.
\<close>

theorem parse_message_no_svc:
  assumes "json_get_string (c_str bytes) ''m'' 8 = Some PN_MAGIC"
    and "json_get_string (c_str bytes) ''cmd'' 16 = Some ''helo''"
    and "json_get_string (c_str bytes) ''id'' PN_MAX_ID_LEN = Some ident"
    and "\<not> sublist ([DQ] @ ''svc'' @ [DQ, CHR '':'', DQ]) (c_str bytes)"
  shows "parse_message g caps0 sender_ip now bytes =
           (if announcing g \<and> ident = id_s (my_service g) then 0 else -1, g, [])"
proof -
  from assms(4) have "json_get_string (c_str bytes) ''svc'' PN_MAX_SERVICE_LEN = None"
    by (rule json_get_string_None_absent)
  with assms(1-3) show ?thesis
    by (simp add: parse_message_def parse_helo_def Let_def)
qed

theorem parse_message_no_svc_witness:
  "json_get_string (c_str helo_no_svc) ''m'' 8 = Some PN_MAGIC
   \<and> json_get_string (c_str helo_no_svc) ''cmd'' 16 = Some ''helo''
   \<and> json_get_string (c_str helo_no_svc) ''id'' PN_MAX_ID_LEN = Some ''X''
   \<and> \<not> sublist ([DQ] @ ''svc'' @ [DQ, CHR '':'', DQ]) (c_str helo_no_svc)
   \<and> parse_message listener [] ''10.0.0.9'' 0 helo_no_svc = (-1, listener, [])"
proof -
  have m: "json_get_string (c_str helo_no_svc) ''m'' 8 = Some PN_MAGIC" by code_simp
  have c: "json_get_string (c_str helo_no_svc) ''cmd'' 16 = Some ''helo''" by code_simp
  have i: "json_get_string (c_str helo_no_svc) ''id'' PN_MAX_ID_LEN = Some ''X''" by code_simp
  have s: "\<not> sublist ([DQ] @ ''svc'' @ [DQ, CHR '':'', DQ]) (c_str helo_no_svc)" by code_simp
  have n: "\<not> announcing listener" by code_simp
  from parse_message_no_svc [OF m c i s, of listener "[]" "''10.0.0.9''" 0] n
  have "parse_message listener [] ''10.0.0.9'' 0 helo_no_svc = (-1, listener, [])" by simp
  with m c i s show ?thesis by blast
qed

text \<open>
  The claim C10 as it was stated fails for the instance \<open>X\<close> itself: it is announcing,
  the message carries a valid tag, the command \<open>helo\<close> and the identity \<open>X\<close> and has
  no \<open>svc\<close> key, and \<open>parse_message\<close> returns \<open>0\<close>, not an error.
\<close>

theorem parse_message_no_svc_counterexample:
  "json_get_string (c_str helo_no_svc) ''m'' 8 = Some PN_MAGIC
   \<and> json_get_string (c_str helo_no_svc) ''cmd'' 16 = Some ''helo''
   \<and> json_get_string (c_str helo_no_svc) ''id'' PN_MAX_ID_LEN = Some ''X''
   \<and> json_get_string (c_str helo_no_svc) ''svc'' PN_MAX_SERVICE_LEN = None
   \<and> fst (parse_message announcer_X [] ''10.0.0.9'' 0 helo_no_svc) \<noteq> -1
   \<and> parse_message announcer_X [] ''10.0.0.9'' 0 helo_no_svc = (0, announcer_X, [])"
proof -
  have m: "json_get_string (c_str helo_no_svc) ''m'' 8 = Some PN_MAGIC" by code_simp
  have c: "json_get_string (c_str helo_no_svc) ''cmd'' 16 = Some ''helo''" by code_simp
  have i: "json_get_string (c_str helo_no_svc) ''id'' PN_MAX_ID_LEN = Some ''X''" by code_simp
  have s: "json_get_string (c_str helo_no_svc) ''svc'' PN_MAX_SERVICE_LEN = None" by code_simp
  have r: "fst (parse_message announcer_X [] ''10.0.0.9'' 0 helo_no_svc) \<noteq> -1" by code_simp
  have p: "parse_message announcer_X [] ''10.0.0.9'' 0 helo_no_svc = (0, announcer_X, [])"
    by code_simp
  from m c i s r p show ?thesis by blast
qed

section \<open>Departure of an unknown peer\<close>

text \<open>
  C8. A departure message whose identity has no active record leaves the state, and
  so every record of the registry, as it was, and invokes no callback.
\<close>

theorem parse_message_bye_unknown:
  assumes "json_get_string (c_str bytes) ''m'' 8 = Some PN_MAGIC"
    and "json_get_string (c_str bytes) ''cmd'' 16 = Some ''bye''"
    and "json_get_string (c_str bytes) ''id'' PN_MAX_ID_LEN = Some ident"
    and "active_records g ident = []"
  shows "parse_message g caps0 sender_ip now bytes = (0, g, [])"
proof -
  from assms(4) have "\<forall>s\<in>set (services g). \<not> (active s \<and> id_s s = ident)"
    by (simp add: active_records_def filter_empty_conv)
  then have "bye_scan ident (services g) = (services g, [], [], 0)"
    by (rule bye_scan_absent)
  then have "parse_bye g ident = (0, g, [])"
    by (simp add: parse_bye_def)
  with assms(1-3) show ?thesis
    by (simp add: parse_message_def Let_def)
qed

theorem parse_message_bye_unknown_witness:
  "json_get_string (c_str bye_X) ''m'' 8 = Some PN_MAGIC
   \<and> json_get_string (c_str bye_X) ''cmd'' 16 = Some ''bye''
   \<and> json_get_string (c_str bye_X) ''id'' PN_MAX_ID_LEN = Some ''X''
   \<and> active_records full_registry ''X'' = []
   \<and> parse_message full_registry [] ''10.0.0.9'' 0 bye_X = (0, full_registry, [])"
proof -
  have m: "json_get_string (c_str bye_X) ''m'' 8 = Some PN_MAGIC" by code_simp
  have c: "json_get_string (c_str bye_X) ''cmd'' 16 = Some ''bye''" by code_simp
  have i: "json_get_string (c_str bye_X) ''id'' PN_MAX_ID_LEN = Some ''X''" by code_simp
  have a: "active_records full_registry ''X'' = []" by code_simp
  from parse_message_bye_unknown [OF m c i a]
  have "parse_message full_registry [] ''10.0.0.9'' 0 bye_X = (0, full_registry, [])" .
  with m c i a show ?thesis by blast
qed

section \<open>The snapshot of the registry\<close>

text \<open>
  C9. For every state and every non-negative \<open>max_count\<close>, \<open>pn_get_services\<close> copies
  out the first \<open>max_count\<close> active slots: at most \<open>max_count\<close> entries, each an active
  record of the registry, in slot order.
\<close>

theorem pn_get_services_snapshot:
  assumes "0 \<le> max_count"
  shows "pn_get_services g max_count = take (nat max_count) (filter active (services g))
         \<and> int (length (pn_get_services g max_count)) \<le> max_count
         \<and> (\<forall>r\<in>set (pn_get_services g max_count). active r \<and> r \<in> set (services g))
         \<and> subseq (pn_get_services g max_count) (services g)"
proof -
  have eq: "pn_get_services g max_count = take (nat max_count) (filter active (services g))"
    by (simp add: pn_get_services_def get_services_loop_eq)
  have len: "int (length (pn_get_services g max_count)) \<le> max_count"
    using assms by (simp add: eq)
  have act: "\<forall>r\<in>set (pn_get_services g max_count). active r \<and> r \<in> set (services g)"
  proof
    fix r assume "r \<in> set (pn_get_services g max_count)"
    then have "r \<in> set (filter active (services g))"
      unfolding eq by (rule in_set_takeD)
    then show "active r \<and> r \<in> set (services g)" by simp
  qed
  have "subseq (take (nat max_count) (filter active (services g))) (filter active (services g))"
    by (metis append_take_drop_id list_emb_append2 subseq_order.order_refl list_emb_prefix prefix_def take_is_prefix prefix_imp_subseq)
  moreover have "subseq (filter active (services g)) (services g)"
    by (rule subseq_filter_left)
  ultimately have "subseq (pn_get_services g max_count) (services g)"
    unfolding eq by (rule subseq_order.trans)
  with eq len act show ?thesis by blast
qed

theorem pn_get_services_snapshot_witness:
  "(0::int) \<le> 1 \<and> pn_get_services full_registry 1 = [peer_slot 0]
   \<and> pn_get_services listener_knows_X 5 = [record_X]"
proof -
  have h: "(0::int) \<le> 1" by simp
  have f: "take (nat 1) (filter active (services full_registry)) = [peer_slot 0]" by code_simp
  have k: "pn_get_services listener_knows_X 5 = [record_X]" by code_simp
  from pn_get_services_snapshot [OF h, of full_registry]
  have "pn_get_services full_registry 1 = take (nat 1) (filter active (services full_registry))"
    by (rule conjunct1)
  then have "pn_get_services full_registry 1 = [peer_slot 0]" using f by (rule trans)
  with h k show ?thesis by blast
qed

section \<open>Departure of a known peer\<close>

text \<open>
  C2, as amended. A departure message whose identity (not the one the instance itself
  announces) has one active record, with a non-empty service type, while a callback
  is registered: the record is marked inactive, every other slot is left as it was,
  and the callback is invoked once with the identity, the record's service type,
  address and control port, a data port of 0, empty capabilities and the departure
  flag set.
\<close>

theorem parse_message_bye_known:
  assumes "json_get_string (c_str bytes) ''m'' 8 = Some PN_MAGIC"
    and "json_get_string (c_str bytes) ''cmd'' 16 = Some ''bye''"
    and "json_get_string (c_str bytes) ''id'' PN_MAX_ID_LEN = Some ident"
    and "\<not> (announcing g \<and> ident = id_s (my_service g))"
    and "active_records g ident = [r]"
    and "length (service r) < PN_MAX_SERVICE_LEN" and "length (ip r) < PN_MAX_IP_LEN"
    and "callback g" and "service r \<noteq> []"
  shows "parse_message g caps0 sender_ip now bytes =
           (0, g\<lparr>services := mark_inactive ident (services g)\<rparr>,
            [Callback ident (service r) (ip r) (ctrl_port r) 0 [] True])"
proof -
  from assms(5) have "bye_scan ident (services g) =
           (mark_inactive ident (services g), strncpy (service r) (PN_MAX_SERVICE_LEN - 1),
            strncpy (ip r) (PN_MAX_IP_LEN - 1), ctrl_port r)"
    unfolding active_records_def by (rule bye_scan_single)
  moreover have "strncpy (service r) (PN_MAX_SERVICE_LEN - 1) = service r"
    using assms(6) by (simp add: strncpy_def)
  moreover have "strncpy (ip r) (PN_MAX_IP_LEN - 1) = ip r"
    using assms(7) by (simp add: strncpy_def)
  ultimately have "parse_bye g ident =
           (0, g\<lparr>services := mark_inactive ident (services g)\<rparr>,
            [Callback ident (service r) (ip r) (ctrl_port r) 0 [] True])"
    using assms(8,9) by (simp add: parse_bye_def)
  with assms(1-4) show ?thesis
    by (simp add: parse_message_def Let_def)
qed

theorem parse_message_bye_known_witness:
  "json_get_string (c_str bye_X) ''m'' 8 = Some PN_MAGIC
   \<and> json_get_string (c_str bye_X) ''cmd'' 16 = Some ''bye''
   \<and> json_get_string (c_str bye_X) ''id'' PN_MAX_ID_LEN = Some ''X''
   \<and> \<not> (announcing listener_knows_X \<and> ''X'' = id_s (my_service listener_knows_X))
   \<and> active_records listener_knows_X ''X'' = [record_X]
   \<and> length (service record_X) < PN_MAX_SERVICE_LEN \<and> length (ip record_X) < PN_MAX_IP_LEN
   \<and> callback listener_knows_X \<and> service record_X \<noteq> []
   \<and> parse_message listener_knows_X [] ''10.0.0.9'' 0 bye_X =
        (0, listener_knows_X\<lparr>services := mark_inactive ''X'' (services listener_knows_X)\<rparr>,
         [Callback ''X'' (service record_X) (ip record_X) (ctrl_port record_X) 0 [] True])"
proof -
  have m: "json_get_string (c_str bye_X) ''m'' 8 = Some PN_MAGIC" by code_simp
  have c: "json_get_string (c_str bye_X) ''cmd'' 16 = Some ''bye''" by code_simp
  have i: "json_get_string (c_str bye_X) ''id'' PN_MAX_ID_LEN = Some ''X''" by code_simp
  have n: "\<not> (announcing listener_knows_X \<and> ''X'' = id_s (my_service listener_knows_X))"
    by code_simp
  have a: "active_records listener_knows_X ''X'' = [record_X]" by code_simp
  have l1: "length (service record_X) < PN_MAX_SERVICE_LEN" by code_simp
  have l2: "length (ip record_X) < PN_MAX_IP_LEN" by code_simp
  have cb: "callback listener_knows_X" by code_simp
  have ne: "service record_X \<noteq> []" by code_simp
  from parse_message_bye_known [OF m c i n a l1 l2 cb ne]
  have "parse_message listener_knows_X [] ''10.0.0.9'' 0 bye_X =
        (0, listener_knows_X\<lparr>services := mark_inactive ''X'' (services listener_knows_X)\<rparr>,
         [Callback ''X'' (service record_X) (ip record_X) (ctrl_port record_X) 0 [] True])" .
  with m c i n a l1 l2 cb ne show ?thesis by blast
qed

text \<open>
  The claim C2 as it was stated fails on the data port and the capabilities: the
  record of \<open>X\<close> holds the data port 4536 and the capabilities \<open>c\<close>, and the callback
  made for its departure carries 0 and the empty string.
\<close>

theorem parse_message_bye_known_counterexample:
  "active_records listener_knows_X ''X'' = [record_X]
   \<and> data_port record_X = 4536 \<and> caps record_X = ''c''
   \<and> snd (snd (parse_message listener_knows_X [] ''10.0.0.9'' 0 bye_X)) =
        [Callback ''X'' ''sdr_server'' ''10.0.0.9'' 4535 0 [] True]
   \<and> snd (snd (parse_message listener_knows_X [] ''10.0.0.9'' 0 bye_X)) \<noteq>
        [Callback (id_s record_X) (service record_X) (ip record_X) (ctrl_port record_X)
           (data_port record_X) (caps record_X) True]"
proof -
  have a: "active_records listener_knows_X ''X'' = [record_X]" by code_simp
  have d: "data_port record_X = 4536" by code_simp
  have c: "caps record_X = ''c''" by code_simp
  have e: "snd (snd (parse_message listener_knows_X [] ''10.0.0.9'' 0 bye_X)) =
        [Callback ''X'' ''sdr_server'' ''10.0.0.9'' 4535 0 [] True]" by code_simp
  have n: "snd (snd (parse_message listener_knows_X [] ''10.0.0.9'' 0 bye_X)) \<noteq>
        [Callback (id_s record_X) (service record_X) (ip record_X) (ctrl_port record_X)
           (data_port record_X) (caps record_X) True]" by code_simp
  from a d c e n show ?thesis by blast
qed

section \<open>Presence messages and the registry\<close>

text \<open>
  C1, evaluated where the code departs from it. Every slot of \<open>full_registry\<close> holds
  an active peer and none has the identity \<open>X\<close>. The presence message \<open>helo_X\<close> is
  dropped as the claim says (the state is the one before, the count stays
  \<open>PN_MAX_SERVICES\<close>, the value returned is 0), but the callback is invoked all the
  same, for a peer that was not stored, and again at its next heartbeat.
\<close>

theorem parse_message_full_registry:
  "active_records full_registry ''X'' = []
   \<and> pn_get_service_count full_registry = 32
   \<and> parse_message full_registry [] ''10.0.0.9'' 0 helo_X =
        (0, full_registry, [Callback ''X'' ''sdr_server'' ''10.0.0.9'' 4535 4536 ''c'' False])
   \<and> listen_loop full_registry [datagram_of helo_X 0, datagram_of helo_X 1] =
        (full_registry,
         [Callback ''X'' ''sdr_server'' ''10.0.0.9'' 4535 4536 ''c'' False,
          Callback ''X'' ''sdr_server'' ''10.0.0.9'' 4535 4536 ''c'' False])"
proof -
  have a: "active_records full_registry ''X'' = []" by code_simp
  have c: "pn_get_service_count full_registry = 32" by code_simp
  have p: "parse_message full_registry [] ''10.0.0.9'' 0 helo_X =
        (0, full_registry, [Callback ''X'' ''sdr_server'' ''10.0.0.9'' 4535 4536 ''c'' False])"
    by code_simp
  have l: "listen_loop full_registry [datagram_of helo_X 0, datagram_of helo_X 1] =
        (full_registry,
         [Callback ''X'' ''sdr_server'' ''10.0.0.9'' 4535 4536 ''c'' False,
          Callback ''X'' ''sdr_server'' ''10.0.0.9'' 4535 4536 ''c'' False])"
    by code_simp
  from a c p l show ?thesis by blast
qed





section \<open>The encoder stays inside its buffer\<close>

lemma poke_all_eq:
  "0 \<le> i \<Longrightarrow> nat i + length s \<le> length mem \<Longrightarrow>
     poke_all mem i s = Some (take (nat i) mem @ s @ drop (nat i + length s) mem)"
proof (induction s arbitrary: mem i)
  case Nil
  then show ?case by simp
next
  case (Cons c cs)
  from Cons.prems have lt: "nat i < length mem" by simp
  with Cons.prems have pk: "poke mem i c = Some (mem[nat i := c])" by (simp add: poke_def)
  have n1: "nat (i + 1) = Suc (nat i)" using Cons.prems by simp
  have "poke_all (mem[nat i := c]) (i + 1) cs =
          Some (take (nat (i + 1)) (mem[nat i := c]) @ cs @ drop (nat (i + 1) + length cs) (mem[nat i := c]))"
    using Cons.prems by (intro Cons.IH) simp_all
  moreover have "take (nat (i + 1)) (mem[nat i := c]) = take (nat i) mem @ [c]"
    using lt by (simp add: n1 take_Suc_conv_app_nth)
  moreover have "drop (nat (i + 1) + length cs) (mem[nat i := c]) = drop (nat i + length (c # cs)) mem"
    by (simp add: n1)
  ultimately show ?case using pk by simp
qed

lemma fmt_string_nonempty: "fmt_string k v c \<noteq> []"
  by (simp add: fmt_string_def)

lemma fmt_int_nonempty: "fmt_int k v c \<noteq> []"
  by (simp add: fmt_int_def)

text \<open>A block written inside the first \<open>m\<close> bytes.\<close>

lemma write_block:
  assumes "n + length w \<le> length b" and "n + length w \<le> m"
  defines "b' \<equiv> take n b @ w @ drop (n + length w) b"
  shows "length b' = length b" and "drop m b' = drop m b" and "take (n + length w) b' = take n b @ w"
proof -
  from assms(1) have ln: "length (take n b @ w) = n + length w" by simp
  show "length b' = length b" unfolding b'_def using assms(1) by simp
  have "b' = (take n b @ w) @ drop (n + length w) b" unfolding b'_def by simp
  then show "take (n + length w) b' = take n b @ w"
    using ln by (metis append_eq_conv_conj)
  from assms(2) obtain k where k: "m = (n + length w) + k" using le_Suc_ex by blast
  have "drop m b' = drop k (drop (n + length w) ((take n b @ w) @ drop (n + length w) b))"
    unfolding b'_def k by (simp only: drop_drop append_assoc add.commute)
  also have "drop (n + length w) ((take n b @ w) @ drop (n + length w) b) = drop (n + length w) b"
    using ln by (metis append_eq_conv_conj)
  also have "drop k (drop (n + length w) b) = drop m b"
    unfolding k by (simp only: drop_drop add.commute)
  finally show "drop m b' = drop m b" .
qed

text \<open>One bounded append of a non-empty text from a good state.\<close>

lemma snprintf_step:
  assumes g: "enc_good mem maxlen txt b pos"
    and cap: "maxlen \<le> int (length mem)" and imax: "maxlen \<le> 2147483647"
    and ne: "f \<noteq> []"
  shows "enc_built mem maxlen (txt @ f)
           (case snprintf b pos (maxlen - pos) f of
              None \<Rightarrow> None
            | Some (mem', n) \<Rightarrow> Some (mem', if n > 0 \<and> pos + n < maxlen then pos + n else -1))"
proof -
  from g have lb: "length b = length mem" and dr: "drop (nat maxlen) b = drop (nat maxlen) mem"
    and pos: "pos = int (length txt)" and le: "pos \<le> maxlen" and tk: "take (length txt) b = txt"
    by (simp_all add: enc_good_def)
  from ne have fpos: "0 < int (length f)" by simp
  show ?thesis
  proof (cases "pos = maxlen")
    case True
    then have "size_t_of_int (maxlen - pos) = 0" by (simp add: size_t_of_int_def)
    then have "snprintf b pos (maxlen - pos) f = Some (b, int (length f))"
      by (simp add: snprintf_def)
    with True pos lb dr fpos show ?thesis by (simp add: enc_built_def)
  next
    case False
    with le have lt: "pos < maxlen" by simp
    define sz where "sz = nat (maxlen - pos)"
    define n where "n = length txt"
    define w where "w = take (sz - 1) f @ [NUL]"
    have "0 \<le> maxlen - pos" "maxlen - pos < 2 ^ 64" using lt imax pos by simp_all
    then have "(maxlen - pos) mod 2 ^ 64 = maxlen - pos" by (rule mod_pos_pos_trivial)
    then have szc: "size_t_of_int (maxlen - pos) = sz"
      by (simp only: size_t_of_int_def sz_def)
    from lt have sz0: "0 < sz" by (simp add: sz_def)
    have szn: "int sz = maxlen - int n" using lt pos by (simp add: sz_def n_def)
    have lw: "length w \<le> sz" using sz0 by (simp add: w_def)
    have np: "nat pos = n" using pos by (simp add: n_def)
    have fitm: "n + length w \<le> nat maxlen" using lw szn by linarith
    have fit: "n + length w \<le> length b" using fitm cap lb by linarith
    have p0: "0 \<le> pos" using pos by simp
    define b' where "b' = take n b @ w @ drop (n + length w) b"
    from poke_all_eq [OF p0, of w b] fit np
    have pa: "poke_all b pos w = Some b'" by (simp only: b'_def)
    from szc sz0 pa have sn: "snprintf b pos (maxlen - pos) f = Some (b', int (length f))"
      by (simp add: snprintf_def Let_def w_def)
    note wb = write_block [OF fit fitm, folded b'_def]
    have lb': "length b' = length mem" using wb(1) lb by simp
    have dr': "drop (nat maxlen) b' = drop (nat maxlen) mem" using wb(2) dr by simp
    show ?thesis
    proof (cases "pos + int (length f) < maxlen")
      case True
      then have fl: "length f \<le> sz - 1" using szn pos n_def by linarith
      then have wf: "w = f @ [NUL]" by (simp add: w_def)
      from wb(3) tk have "take (n + length w) b' = txt @ f @ [NUL]"
        by (simp only: n_def wf)
      then have "take (n + length f) (take (n + length w) b') = take (n + length f) (txt @ f @ [NUL])"
        by simp
      then have tk': "take (length (txt @ f)) b' = txt @ f"
        by (simp add: wf n_def min_def)
      have good: "enc_good mem maxlen (txt @ f) b' (pos + int (length f))"
        unfolding enc_good_def using lb' dr' tk' True pos by simp
      from True fpos have res: "(if int (length f) > 0 \<and> pos + int (length f) < maxlen
                 then pos + int (length f) else -1) = pos + int (length f)" by simp
      have nm: "pos + int (length f) \<noteq> -1" using p0 fpos by linarith
      show ?thesis unfolding sn using good nm True ne
        by (simp add: enc_built_def)
    next
      case False
      then have res: "(if int (length f) > 0 \<and> pos + int (length f) < maxlen
                 then pos + int (length f) else -1) = -1" by simp
      from False pos have "maxlen \<le> int (length (txt @ f))" by simp
      with lb' dr' False show ?thesis unfolding sn by (simp add: enc_built_def)
    qed
  qed
qed

lemma json_add_string_step:
  assumes "enc_good mem maxlen txt b pos" "maxlen \<le> int (length mem)" "maxlen \<le> 2147483647"
  shows "enc_built mem maxlen (txt @ fmt_string k v c) (json_add_string b pos maxlen k v c)"
  unfolding json_add_string_def using assms fmt_string_nonempty by (rule snprintf_step)

lemma json_add_int_step:
  assumes "enc_good mem maxlen txt b pos" "maxlen \<le> int (length mem)" "maxlen \<le> 2147483647"
  shows "enc_built mem maxlen (txt @ fmt_int k v c) (json_add_int b pos maxlen k v c)"
  unfolding json_add_int_def using assms fmt_int_nonempty by (rule snprintf_step)

lemma skip_step:
  "enc_good mem maxlen txt b pos \<Longrightarrow> enc_built mem maxlen (txt @ []) (Some (b, pos))"
  by (auto simp: enc_built_def enc_good_def)

lemma close_message_final:
  assumes g: "enc_good mem maxlen txt b pos" and cap: "maxlen \<le> int (length mem)"
  shows "enc_final mem maxlen (txt @ ''}'') (close_message b pos maxlen)"
proof -
  from g have lb: "length b = length mem" and dr: "drop (nat maxlen) b = drop (nat maxlen) mem"
    and pos: "pos = int (length txt)" and le: "pos \<le> maxlen" and tk: "take (length txt) b = txt"
    by (simp_all add: enc_good_def)
  show ?thesis
  proof (cases "pos + 1 \<ge> maxlen")
    case True
    with lb dr pos show ?thesis by (simp add: close_message_def enc_final_def)
  next
    case False
    let ?n = "length txt"
    from False pos cap lb have n2: "Suc ?n < length b" "Suc ?n < nat maxlen" by simp_all
    then have p1: "poke b pos (CHR ''}'') = Some (b[?n := CHR ''}''])"
      using pos by (simp add: poke_def)
    have p2: "poke (b[?n := CHR ''}'']) (pos + 1) NUL = Some (b[?n := CHR ''}'', Suc ?n := NUL])"
      using pos n2 by (simp add: poke_def nat_add_distrib)
    let ?b' = "b[?n := CHR ''}'', Suc ?n := NUL]"
    from False p1 p2 have cm: "close_message b pos maxlen = Some (?b', pos + 1)"
      by (simp add: close_message_def)
    have dr': "drop (nat maxlen) ?b' = drop (nat maxlen) mem"
      using n2 dr by simp
    have tk': "take (Suc ?n) ?b' = txt @ ''}''"
      using n2 tk by (simp add: take_Suc_conv_app_nth)
    have nul: "?b' ! Suc ?n = NUL" using n2 by simp
    from False cm lb dr' tk' nul pos show ?thesis by (simp add: enc_final_def)
  qed
qed

lemma and_then_final:
  assumes "enc_built mem maxlen txt r"
    and "length txt < length full"
    and "\<And>b pos. enc_good mem maxlen txt b pos \<Longrightarrow> enc_final mem maxlen full (rest b pos)"
  shows "enc_final mem maxlen full (and_then r rest)"
proof -
  from assms(1) obtain b pos where r: "r = Some (b, pos)"
    by (auto simp: enc_built_def split: option.splits)
  show ?thesis
  proof (cases "pos = -1")
    case True
    with assms(1,2) r show ?thesis
      by (simp add: enc_built_def enc_final_def and_then_def)
  next
    case False
    with assms(1) r have g: "enc_good mem maxlen txt b pos" by (simp add: enc_built_def)
    then have "0 \<le> pos" by (simp add: enc_good_def)
    with r assms(3) [OF g] show ?thesis by (simp add: and_then_def)
  qed
qed

lemma chain_string:
  assumes "enc_good mem maxlen txt b pos"
    and "maxlen \<le> int (length mem)" and "maxlen \<le> 2147483647"
    and "length (txt @ fmt_string k v c) < length full"
    and "\<And>b pos. enc_good mem maxlen (txt @ fmt_string k v c) b pos
           \<Longrightarrow> enc_final mem maxlen full (rest b pos)"
  shows "enc_final mem maxlen full (and_then (json_add_string b pos maxlen k v c) rest)"
  using json_add_string_step [OF assms(1-3)] assms(4,5) by (rule and_then_final)

lemma chain_int:
  assumes "enc_good mem maxlen txt b pos"
    and "maxlen \<le> int (length mem)" and "maxlen \<le> 2147483647"
    and "length (txt @ fmt_int k v c) < length full"
    and "\<And>b pos. enc_good mem maxlen (txt @ fmt_int k v c) b pos
           \<Longrightarrow> enc_final mem maxlen full (rest b pos)"
  shows "enc_final mem maxlen full (and_then (json_add_int b pos maxlen k v c) rest)"
  using json_add_int_step [OF assms(1-3)] assms(4,5) by (rule and_then_final)

lemma chain_opt_string:
  assumes "enc_good mem maxlen txt b pos"
    and "maxlen \<le> int (length mem)" and "maxlen \<le> 2147483647"
    and "length (txt @ (if P then fmt_string k v c else [])) < length full"
    and "\<And>b pos. enc_good mem maxlen (txt @ (if P then fmt_string k v c else [])) b pos
           \<Longrightarrow> enc_final mem maxlen full (rest b pos)"
  shows "enc_final mem maxlen full
           (and_then (if P then json_add_string b pos maxlen k v c else Some (b, pos)) rest)"
proof -
  have "enc_built mem maxlen (txt @ (if P then fmt_string k v c else []))
          (if P then json_add_string b pos maxlen k v c else Some (b, pos))"
    using json_add_string_step [OF assms(1-3)] skip_step [OF assms(1)] by simp
  then show ?thesis using assms(4,5) by (rule and_then_final)
qed

lemma chain_opt_int:
  assumes "enc_good mem maxlen txt b pos"
    and "maxlen \<le> int (length mem)" and "maxlen \<le> 2147483647"
    and "length (txt @ (if P then fmt_int k v c else [])) < length full"
    and "\<And>b pos. enc_good mem maxlen (txt @ (if P then fmt_int k v c else [])) b pos
           \<Longrightarrow> enc_final mem maxlen full (rest b pos)"
  shows "enc_final mem maxlen full
           (and_then (if P then json_add_int b pos maxlen k v c else Some (b, pos)) rest)"
proof -
  have "enc_built mem maxlen (txt @ (if P then fmt_int k v c else []))
          (if P then json_add_int b pos maxlen k v c else Some (b, pos))"
    using json_add_int_step [OF assms(1-3)] skip_step [OF assms(1)] by simp
  then show ?thesis using assms(4,5) by (rule and_then_final)
qed

lemma close_message_full:
  assumes "enc_good mem maxlen txt b pos" and "maxlen \<le> int (length mem)"
    and "full = txt @ ''}''"
  shows "enc_final mem maxlen full (close_message b pos maxlen)"
  unfolding assms(3) using assms(1,2) by (rule close_message_final)

lemma open_brace_good:
  assumes "1 \<le> maxlen" and "maxlen \<le> int (length buf)"
  shows "poke buf 0 (CHR ''{'') = Some (buf[0 := CHR ''{''])"
    and "enc_good buf maxlen ''{'' (buf[0 := CHR ''{'']) 1"
proof -
  from assms have l: "0 < length buf" by linarith
  from assms have m: "0 < nat maxlen" by linarith
  from l show "poke buf 0 (CHR ''{'') = Some (buf[0 := CHR ''{''])" by (simp add: poke_def)
  have "take (Suc 0) (buf[0 := CHR ''{'']) = ''{''" using l by (cases buf) simp_all
  with assms m show "enc_good buf maxlen ''{'' (buf[0 := CHR ''{'']) 1"
    by (simp add: enc_good_def)
qed

lemma build_helo_final:
  assumes one: "1 \<le> maxlen" and cap: "maxlen \<le> int (length buf)" and imax: "maxlen \<le> 2147483647"
  shows "enc_final buf maxlen (helo_text g now) (build_helo_message g now buf maxlen)"
  unfolding build_helo_message_def
  apply (simp only: open_brace_good(1) [OF one cap] option.case)
  apply (rule chain_string [OF open_brace_good(2) [OF one cap] cap imax])
   apply (simp add: helo_text_def)
  apply (rule chain_int [OF _ cap imax], assumption)
   apply (simp add: helo_text_def)
  apply (rule chain_string [OF _ cap imax], assumption)
   apply (simp add: helo_text_def)
  apply (rule chain_string [OF _ cap imax], assumption)
   apply (simp add: helo_text_def)
  apply (rule chain_string [OF _ cap imax], assumption)
   apply (simp add: helo_text_def)
  apply (rule chain_string [OF _ cap imax], assumption)
   apply (simp add: helo_text_def)
  apply (rule chain_int [OF _ cap imax], assumption)
   apply (simp add: helo_text_def)
  apply (rule chain_opt_int [OF _ cap imax], assumption)
   apply (simp add: helo_text_def)
  apply (rule chain_opt_string [OF _ cap imax], assumption)
   apply (simp add: helo_text_def)
  apply (rule chain_int [OF _ cap imax], assumption)
   apply (simp add: helo_text_def)
  apply (rule close_message_full [OF _ cap], assumption)
  apply (simp add: helo_text_def)
  done

lemma build_bye_final:
  assumes one: "1 \<le> maxlen" and cap: "maxlen \<le> int (length buf)" and imax: "maxlen \<le> 2147483647"
  shows "enc_final buf maxlen (bye_text g now) (build_bye_message g now buf maxlen)"
  unfolding build_bye_message_def
  apply (simp only: open_brace_good(1) [OF one cap] option.case)
  apply (rule chain_string [OF open_brace_good(2) [OF one cap] cap imax])
   apply (simp add: bye_text_def)
  apply (rule chain_int [OF _ cap imax], assumption)
   apply (simp add: bye_text_def)
  apply (rule chain_string [OF _ cap imax], assumption)
   apply (simp add: bye_text_def)
  apply (rule chain_string [OF _ cap imax], assumption)
   apply (simp add: bye_text_def)
  apply (rule chain_int [OF _ cap imax], assumption)
   apply (simp add: bye_text_def)
  apply (rule close_message_full [OF _ cap], assumption)
  apply (simp add: bye_text_def)
  done

lemma enc_final_D:
  assumes "enc_final mem maxlen full r"
  shows "\<exists>b p. r = Some (b, p)
            \<and> length b = length mem \<and> drop (nat maxlen) b = drop (nat maxlen) mem
            \<and> (if int (length full) < maxlen
                 then p = int (length full) \<and> take (nat p) b = full \<and> b ! nat p = NUL
                 else p = -1)"
proof -
  from assms obtain b p where r: "r = Some (b, p)"
    by (auto simp: enc_final_def split: option.splits)
  with assms have f: "length b = length mem" "drop (nat maxlen) b = drop (nat maxlen) mem"
    "if int (length full) < maxlen
     then p = int (length full) \<and> take (length full) b = full \<and> b ! length full = NUL
     else p = -1"
    by (simp_all add: enc_final_def)
  have "if int (length full) < maxlen
        then p = int (length full) \<and> take (nat p) b = full \<and> b ! nat p = NUL
        else p = -1"
  proof (cases "int (length full) < maxlen")
    case True
    with f(3) have "p = int (length full)" "take (length full) b = full" "b ! length full = NUL"
      by simp_all
    with True show ?thesis by simp
  next
    case False
    with f(3) show ?thesis by simp
  qed
  with r f(1,2) show ?thesis by blast
qed


text \<open>The message a successful \<open>build_helo_message\<close> leaves in the buffer.\<close>

lemma build_helo_text:
  assumes "1 \<le> maxlen" and "maxlen \<le> int (length buf)" and "maxlen \<le> 2147483647"
    and "build_helo_message g now buf maxlen = Some (b, p)" and "p \<noteq> -1"
  shows "take (nat p) b = helo_text g now"
proof -
  from build_helo_final [OF assms(1-3), of g now, THEN enc_final_D]
  obtain b' p' where r: "build_helo_message g now buf maxlen = Some (b', p')"
    and f: "if int (length (helo_text g now)) < maxlen
            then p' = int (length (helo_text g now)) \<and> take (nat p') b' = helo_text g now
                 \<and> b' ! nat p' = NUL
            else p' = -1" by blast
  from r assms(4) have e: "b' = b" "p' = p" by simp_all
  show ?thesis
  proof (cases "int (length (helo_text g now)) < maxlen")
    case True
    have "take (nat p') b' = helo_text g now"
      using f True by (auto split: if_splits)
    then show ?thesis unfolding e .
  next
    case False
    with f have "p' = -1" by simp
    with e assms(5) show ?thesis by simp
  qed
qed


text \<open>
  C7. For every self descriptor and every buffer of at least one byte whose capacity
  is \<open>maxlen\<close> or more, \<open>build_helo_message\<close> and \<open>build_bye_message\<close> make no write
  outside the buffer (the result is never \<open>None\<close>) and leave the bytes from \<open>maxlen\<close> on
  as they were. When the complete message and its terminator fit in \<open>maxlen\<close> bytes,
  the buffer holds the complete message, terminated, and its length is returned;
  otherwise the value returned is \<open>-1\<close>: a truncated message is never reported as built.
\<close>

theorem build_messages_in_bounds:
  assumes "1 \<le> maxlen" and "maxlen \<le> int (length buf)" and "maxlen \<le> 2147483647"
  shows "(\<exists>b p. build_helo_message g now buf maxlen = Some (b, p)
            \<and> length b = length buf \<and> drop (nat maxlen) b = drop (nat maxlen) buf
            \<and> (if int (length (helo_text g now)) < maxlen
                 then p = int (length (helo_text g now))
                      \<and> take (nat p) b = helo_text g now \<and> b ! nat p = NUL
                 else p = -1))
       \<and> (\<exists>b p. build_bye_message g now buf maxlen = Some (b, p)
            \<and> length b = length buf \<and> drop (nat maxlen) b = drop (nat maxlen) buf
            \<and> (if int (length (bye_text g now)) < maxlen
                 then p = int (length (bye_text g now))
                      \<and> take (nat p) b = bye_text g now \<and> b ! nat p = NUL
                 else p = -1))"
  using build_helo_final [OF assms, of g now, THEN enc_final_D]
    build_bye_final [OF assms, of g now, THEN enc_final_D]
  by (rule conjI)

lemma helo_text_nonempty: "0 < length (helo_text g now)"
  by (simp add: helo_text_def)

lemma announce_datagram_eq:
  assumes "1 \<le> maxlen" and "maxlen \<le> int (length buf)" and "maxlen \<le> 2147483647"
    and "int (length (helo_text g now)) < maxlen"
  shows "announce_datagram g now buf maxlen = Some (helo_text g now)"
proof -
  from build_helo_final [OF assms(1-3), of g now, THEN enc_final_D]
  obtain b p where r: "build_helo_message g now buf maxlen = Some (b, p)"
    and f: "if int (length (helo_text g now)) < maxlen
            then p = int (length (helo_text g now)) \<and> take (nat p) b = helo_text g now
                 \<and> b ! nat p = NUL
            else p = -1" by blast
  from f assms(4) have p: "p = int (length (helo_text g now))" and t: "take (nat p) b = helo_text g now"
    by (auto split: if_splits)
  from p helo_text_nonempty [of g now] have "0 < p" by simp
  with r t show ?thesis by (simp add: announce_datagram_def)
qed

lemma announce_datagram_D:
  assumes "1 \<le> maxlen" and "maxlen \<le> int (length buf)" and "maxlen \<le> 2147483647"
    and "announce_datagram g now buf maxlen = Some wire"
  shows "wire = helo_text g now"
proof -
  from assms(4) obtain b p where r: "build_helo_message g now buf maxlen = Some (b, p)"
    and p: "0 < p" and w: "wire = take (nat p) b"
    by (auto simp: announce_datagram_def split: option.splits if_splits)
  from p have "p \<noteq> -1" by simp
  from build_helo_text [OF assms(1-3) r this] w show ?thesis by simp
qed

lemmas text_eval =
  helo_text_def bye_text_def fmt_string_def fmt_int_def show_int_def show_nat.simps
  digit_char_def int_of_time_def announcer_X_def announcer_quote_def init_discovery_def
  record_X_def

lemma helo_text_X: "helo_text announcer_X 0 = helo_X"
  by (simp add: text_eval helo_X_def)

lemma bye_text_X: "bye_text announcer_X 0 = bye_X"
  by (simp add: text_eval bye_X_def)

lemma helo_text_quote: "helo_text announcer_quote 0 = helo_quote"
  by (simp add: text_eval helo_quote_def)


theorem build_messages_in_bounds_witness:
  "(1::int) \<le> PN_MAX_MSG_LEN \<and> PN_MAX_MSG_LEN \<le> int (length msg_buffer)
   \<and> map_option snd (build_helo_message announcer_X 0 msg_buffer PN_MAX_MSG_LEN) = Some 117
   \<and> map_option (\<lambda>(b, p). take (nat p) b) (build_helo_message announcer_X 0 msg_buffer PN_MAX_MSG_LEN)
       = Some helo_X
   \<and> map_option snd (build_bye_message announcer_X 0 msg_buffer PN_MAX_MSG_LEN) = Some 46
   \<and> map_option snd (build_helo_message announcer_X 0 (take 64 msg_buffer) 64) = Some (-1)"
proof -
  have h1: "(1::int) \<le> PN_MAX_MSG_LEN" by simp
  have h2: "PN_MAX_MSG_LEN \<le> int (length msg_buffer)" by (simp add: msg_buffer_def)
  have h3: "PN_MAX_MSG_LEN \<le> 2147483647" by simp
  have lh: "length (helo_text announcer_X 0) = 117" unfolding helo_text_X by (simp add: helo_X_def)
  have lb: "length (bye_text announcer_X 0) = 46" unfolding bye_text_X by (simp add: bye_X_def)
  from build_messages_in_bounds [OF h1 h2 h3, of announcer_X 0]
  obtain b p b' p' where
    r: "build_helo_message announcer_X 0 msg_buffer PN_MAX_MSG_LEN = Some (b, p)"
    and f: "if int (length (helo_text announcer_X 0)) < PN_MAX_MSG_LEN
            then p = int (length (helo_text announcer_X 0))
                 \<and> take (nat p) b = helo_text announcer_X 0 \<and> b ! nat p = NUL
            else p = -1"
    and r': "build_bye_message announcer_X 0 msg_buffer PN_MAX_MSG_LEN = Some (b', p')"
    and f': "if int (length (bye_text announcer_X 0)) < PN_MAX_MSG_LEN
            then p' = int (length (bye_text announcer_X 0))
                 \<and> take (nat p') b' = bye_text announcer_X 0 \<and> b' ! nat p' = NUL
            else p' = -1"
    by blast
  from f lh have p: "p = 117" by (auto split: if_splits)
  from f lh have "take (nat p) b = helo_text announcer_X 0" by (auto split: if_splits)
  then have t: "take (nat p) b = helo_X" by (simp only: helo_text_X)
  from f' lb have p': "p' = 46" by (auto split: if_splits)
  have s1: "(1::int) \<le> 64" by simp
  have s2: "64 \<le> int (length (take 64 msg_buffer))" by (simp add: msg_buffer_def)
  have s3: "(64::int) \<le> 2147483647" by simp
  from build_messages_in_bounds [OF s1 s2 s3, of announcer_X 0]
  obtain c n where
    q: "build_helo_message announcer_X 0 (take 64 msg_buffer) 64 = Some (c, n)"
    and k: "if int (length (helo_text announcer_X 0)) < 64
            then n = int (length (helo_text announcer_X 0))
                 \<and> take (nat n) c = helo_text announcer_X 0 \<and> c ! nat n = NUL
            else n = -1"
    by blast
  from k lh have n: "n = -1" by (auto split: if_splits)
  from r p have a1: "map_option snd (build_helo_message announcer_X 0 msg_buffer PN_MAX_MSG_LEN) = Some 117"
    by simp
  from t have a2: "map_option (\<lambda>(b, p). take (nat p) b) (build_helo_message announcer_X 0 msg_buffer PN_MAX_MSG_LEN)
       = Some helo_X" unfolding r by simp
  from r' p' have a3: "map_option snd (build_bye_message announcer_X 0 msg_buffer PN_MAX_MSG_LEN) = Some 46"
    by simp
  from q n have a4: "map_option snd (build_helo_message announcer_X 0 (take 64 msg_buffer) 64) = Some (-1)"
    by simp
  from h1 h2 a1 a2 a3 a4 show ?thesis by blast
qed

section \<open>Printing and reading numbers\<close>


lemma digit_char_props:
  assumes "d < 10"
  shows "isdigit (digit_char d)" and "(of_char (digit_char d) :: int) - 48 = int d"
    and "digit_char d \<noteq> DQ" and "digit_char d \<noteq> NUL" and "\<not> isspace (digit_char d)"
    and "digit_char d \<noteq> CHR ''-''" and "digit_char d \<noteq> CHR ''+''"
proof -
  from assms have "d \<in> {0, 1, 2, 3, 4, 5, 6, 7, 8, 9}" by auto
  then show "isdigit (digit_char d)" and "(of_char (digit_char d) :: int) - 48 = int d"
    and "digit_char d \<noteq> DQ" and "digit_char d \<noteq> NUL" and "\<not> isspace (digit_char d)"
    and "digit_char d \<noteq> CHR ''-''" and "digit_char d \<noteq> CHR ''+''"
    by (auto simp: digit_char_def isdigit_def isspace_def)
qed

lemma show_nat_chars: "c \<in> set (show_nat n) \<Longrightarrow> \<exists>d < 10. c = digit_char d"
proof (induction n rule: show_nat.induct)
  case (1 n)
  show ?case
  proof (cases "n < 10")
    case True
    with "1.prems" show ?thesis by (auto simp: show_nat.simps [of n])
  next
    case False
    with "1.prems" have "c \<in> set (show_nat (n div 10)) \<or> c = digit_char (n mod 10)"
      by (auto simp: show_nat.simps [of n])
    then show ?thesis
    proof
      assume "c \<in> set (show_nat (n div 10))"
      with False "1.IH" show ?thesis by simp
    next
      assume "c = digit_char (n mod 10)"
      moreover have "n mod 10 < 10" by simp
      ultimately show ?thesis by blast
    qed
  qed
qed

lemma show_nat_nonempty: "show_nat n \<noteq> []"
  by (simp add: show_nat.simps [of n])

lemma show_nat_hd: "\<exists>d < 10. \<exists>r. show_nat n = digit_char d # r"
proof -
  obtain c r where cr: "show_nat n = c # r" using show_nat_nonempty [of n] by (cases "show_nat n") auto
  then have "c \<in> set (show_nat n)" by simp
  from show_nat_chars [OF this] cr show ?thesis by blast
qed

lemma atoi_digits_stop:
  "field_end r \<Longrightarrow> atoi_digits a r = a"
  by (cases r) (auto simp: field_end_def isdigit_def)

lemma atoi_digits_show_nat:
  "atoi_digits a (show_nat n @ r) = atoi_digits (a * 10 ^ length (show_nat n) + int n) r"
proof (induction n arbitrary: a r rule: show_nat.induct)
  case (1 n)
  show ?case
  proof (cases "n < 10")
    case True
    then show ?thesis
      by (simp add: show_nat.simps [of n] digit_char_props mult.commute)
  next
    case False
    have m: "n mod 10 < 10" by simp
    have "atoi_digits a (show_nat n @ r) = atoi_digits a (show_nat (n div 10) @ (digit_char (n mod 10) # r))"
      using False by (simp add: show_nat.simps [of n])
    also have "\<dots> = atoi_digits (a * 10 ^ length (show_nat (n div 10)) + int (n div 10)) (digit_char (n mod 10) # r)"
      using False by (rule "1.IH")
    also have "\<dots> = atoi_digits (10 * (a * 10 ^ length (show_nat (n div 10)) + int (n div 10)) + int (n mod 10)) r"
      using m by (simp add: digit_char_props)
    also have "10 * (a * 10 ^ length (show_nat (n div 10)) + int (n div 10)) + int (n mod 10)
               = a * 10 ^ length (show_nat n) + int n"
    proof -
      have "length (show_nat n) = Suc (length (show_nat (n div 10)))"
        using False by (simp add: show_nat.simps [of n])
      moreover have "int n = 10 * int (n div 10) + int (n mod 10)"
        by (metis of_nat_add of_nat_mult of_nat_numeral mult_div_mod_eq)
      ultimately show ?thesis by (simp add: algebra_simps)
    qed
    finally show ?thesis .
  qed
qed

lemma strtol_show_int:
  assumes "field_end r" and "- (2 ^ 63) \<le> n" and "n \<le> 2 ^ 63 - 1"
  shows "strtol (show_int n @ r) = n"
proof -
  have nat_case: "dropWhile isspace (show_nat m @ r) = show_nat m @ r
                  \<and> (\<exists>c t. show_nat m @ r = c # t \<and> c \<noteq> CHR ''-'' \<and> c \<noteq> CHR ''+'')" for m
  proof -
    from show_nat_hd [of m] obtain d t where d: "d < 10" and s: "show_nat m = digit_char d # t" by blast
    with digit_char_props [OF d] show ?thesis by simp
  qed
  have v: "(case dropWhile isspace (show_int n @ r) of
                 [] \<Rightarrow> 0
               | c # cs \<Rightarrow>
                   if c = CHR ''-'' then - atoi_digits 0 cs
                   else if c = CHR ''+'' then atoi_digits 0 cs
                   else atoi_digits 0 (c # cs)) = n"
  proof (cases "n < 0")
    case True
    have "\<not> isspace (CHR ''-'')" by (simp add: isspace_def)
    then have "(case dropWhile isspace (show_int n @ r) of
                 [] \<Rightarrow> 0
               | c # cs \<Rightarrow>
                   if c = CHR ''-'' then - atoi_digits 0 cs
                   else if c = CHR ''+'' then atoi_digits 0 cs
                   else atoi_digits 0 (c # cs)) = - atoi_digits 0 (show_nat (nat (- n)) @ r)"
      using True by (simp add: show_int_def)
    also have "\<dots> = - int (nat (- n))"
      by (simp add: atoi_digits_show_nat atoi_digits_stop [OF assms(1)])
    finally show ?thesis using True by simp
  next
    case False
    from nat_case [of "nat n"] obtain c t where d: "dropWhile isspace (show_nat (nat n) @ r) = c # t"
      and ct: "show_nat (nat n) @ r = c # t" and c: "c \<noteq> CHR ''-''" "c \<noteq> CHR ''+''" by auto
    have "(case dropWhile isspace (show_int n @ r) of
                 [] \<Rightarrow> 0
               | c # cs \<Rightarrow>
                   if c = CHR ''-'' then - atoi_digits 0 cs
                   else if c = CHR ''+'' then atoi_digits 0 cs
                   else atoi_digits 0 (c # cs)) = atoi_digits 0 (show_nat (nat n) @ r)"
      using False d c by (simp add: show_int_def ct)
    also have "\<dots> = int (nat n)"
      by (simp add: atoi_digits_show_nat atoi_digits_stop [OF assms(1)])
    finally show ?thesis using False by simp
  qed
  show ?thesis unfolding strtol_def v Let_def using assms(2,3) by simp
qed

text \<open>Every \<open>int\<close> printed with \<open>%d\<close> is read back by \<open>atoi\<close>.\<close>

lemma atoi_show_int:
  assumes "field_end r"
  shows "atoi (show_int (sint n) @ r) = n"
proof -
  have "- (2 ^ 31) \<le> sint n" using sint_ge [of n] by simp
  then have lo: "- (2 ^ 63) \<le> sint n" by simp
  have "sint n < 2 ^ 31" using sint_lt [of n] by simp
  then have hi: "sint n \<le> 2 ^ 63 - 1" by simp
  from strtol_show_int [OF assms lo hi] show ?thesis by (simp add: atoi_def)
qed

text \<open>Digit strings outside the range of \<open>int\<close> are read modulo \<open>2 ^ 32\<close>.\<close>

lemma atoi_out_of_range:
  "atoi ''4294971831'' = 4535" and "atoi ''2147483648'' = - 2147483648"
  and "json_get_int helo_X_wide ''port'' = 4535"
  and "sint (json_get_int helo_X_wide ''data'') = - 2147483648"
  by code_simp+

lemma show_nat_no_quote: "DQ \<notin> set (show_nat n)"
proof
  assume "DQ \<in> set (show_nat n)"
  from show_nat_chars [OF this] obtain d where "d < 10" "DQ = digit_char d" by blast
  with digit_char_props(3) [of d] show False by simp
qed

lemma show_nat_no_nul: "NUL \<notin> set (show_nat n)"
proof
  assume "NUL \<in> set (show_nat n)"
  from show_nat_chars [OF this] obtain d where "d < 10" "NUL = digit_char d" by blast
  with digit_char_props(4) [of d] show False by simp
qed

lemma show_int_no_quote: "DQ \<notin> set (show_int n)"
  by (simp add: show_int_def show_nat_no_quote)

lemma show_int_no_nul: "NUL \<notin> set (show_int n)"
  by (simp add: show_int_def show_nat_no_nul)

section \<open>Searching a key in an encoded message\<close>

lemma strstr_skip_noquote:
  "DQ \<notin> set xs \<Longrightarrow> strstr (xs @ ys) (DQ # p) = strstr ys (DQ # p)"
  by (induction xs) auto

lemma strstr_skip_quote:
  "\<not> prefix p ys \<Longrightarrow> strstr (DQ # ys) (DQ # p) = strstr ys (DQ # p)"
  by simp

lemma prefix_quote_sync:
  "DQ \<notin> set k \<Longrightarrow> DQ \<notin> set k' \<Longrightarrow> prefix (k @ DQ # a) (k' @ DQ # b) \<Longrightarrow> k = k' \<and> prefix a b"
proof (induction k arbitrary: k')
  case Nil
  then show ?case by (cases k') auto
next
  case (Cons c k)
  then show ?case by (cases k') auto
qed

text \<open>
  A search pattern \<open>"k":\<dots>\<close> does not occur in the field of another key, nor across
  its end.
\<close>

lemma strstr_skip_string_field:
  assumes k: "DQ \<notin> set k" "k \<noteq> []" "hd k \<noteq> CHR '':''" "hd k \<noteq> CHR '',''" "hd k \<noteq> CHR ''}''"
    and k': "DQ \<notin> set k'" "k \<noteq> k'"
    and v: "DQ \<notin> set v"
    and r: "field_end r"
  shows "strstr (fmt_string k' v c @ r) (DQ # k @ DQ # CHR '':'' # t)
         = strstr r (DQ # k @ DQ # CHR '':'' # t)"
proof -
  let ?p = "k @ DQ # CHR '':'' # t"
  obtain h kt where kh: "k = h # kt" using k(2) by (cases k) auto
  with k have h: "h \<noteq> CHR '':''" "h \<noteq> CHR '',''" "h \<noteq> CHR ''}''" "h \<noteq> DQ" by auto
  have n1: "\<not> prefix ?p (k' @ DQ # CHR '':'' # DQ # v @ DQ # r)"
    using prefix_quote_sync [OF k(1) k'(1)] k'(2) by blast
  have n2: "\<not> prefix ?p (CHR '':'' # DQ # v @ DQ # r)"
    using kh h by simp
  have n3: "\<not> prefix ?p (v @ DQ # r)"
  proof
    assume "prefix ?p (v @ DQ # r)"
    from prefix_quote_sync [OF k(1) v this] have "prefix (CHR '':'' # t) r" by simp
    with r show False by (cases r) (auto simp: field_end_def)
  qed
  have n4: "\<not> prefix ?p r"
    using r kh h by (cases r) (auto simp: field_end_def)
  have "strstr (fmt_string k' v c @ r) (DQ # ?p)
        = strstr (DQ # k' @ DQ # CHR '':'' # DQ # v @ DQ # r) (DQ # ?p)"
    by (cases c) (simp_all add: fmt_string_def)
  also have "\<dots> = strstr (k' @ DQ # CHR '':'' # DQ # v @ DQ # r) (DQ # ?p)"
    using n1 by (rule strstr_skip_quote)
  also have "\<dots> = strstr (DQ # CHR '':'' # DQ # v @ DQ # r) (DQ # ?p)"
    using k'(1) by (rule strstr_skip_noquote)
  also have "\<dots> = strstr (CHR '':'' # DQ # v @ DQ # r) (DQ # ?p)"
    using n2 by (rule strstr_skip_quote)
  also have "\<dots> = strstr (DQ # v @ DQ # r) (DQ # ?p)"
    by simp
  also have "\<dots> = strstr (v @ DQ # r) (DQ # ?p)"
    using n3 by (rule strstr_skip_quote)
  also have "\<dots> = strstr (DQ # r) (DQ # ?p)"
    using v by (rule strstr_skip_noquote)
  also have "\<dots> = strstr r (DQ # ?p)"
    using n4 by (rule strstr_skip_quote)
  finally show ?thesis .
qed

lemma strstr_skip_int_field:
  assumes k: "DQ \<notin> set k" "k \<noteq> []" "hd k \<noteq> CHR '':''"
    and k': "DQ \<notin> set k'" "k \<noteq> k'"
  shows "strstr (fmt_int k' n c @ r) (DQ # k @ DQ # CHR '':'' # t)
         = strstr r (DQ # k @ DQ # CHR '':'' # t)"
proof -
  let ?p = "k @ DQ # CHR '':'' # t"
  obtain h kt where kh: "k = h # kt" using k(2) by (cases k) auto
  with k have h: "h \<noteq> CHR '':''" by auto
  have n1: "\<not> prefix ?p (k' @ DQ # CHR '':'' # show_int (sint n) @ r)"
    using prefix_quote_sync [OF k(1) k'(1)] k'(2) by blast
  have n2: "\<not> prefix ?p (CHR '':'' # show_int (sint n) @ r)"
    using kh h by simp
  have nq: "DQ \<notin> set (CHR '':'' # show_int (sint n))" using show_int_no_quote by simp
  have "strstr (fmt_int k' n c @ r) (DQ # ?p)
        = strstr (DQ # k' @ DQ # CHR '':'' # show_int (sint n) @ r) (DQ # ?p)"
    by (cases c) (simp_all add: fmt_int_def)
  also have "\<dots> = strstr (k' @ DQ # CHR '':'' # show_int (sint n) @ r) (DQ # ?p)"
    using n1 by (rule strstr_skip_quote)
  also have "\<dots> = strstr (DQ # CHR '':'' # show_int (sint n) @ r) (DQ # ?p)"
    using k'(1) by (rule strstr_skip_noquote)
  also have "\<dots> = strstr (CHR '':'' # show_int (sint n) @ r) (DQ # ?p)"
    using n2 by (rule strstr_skip_quote)
  also have "\<dots> = strstr ((CHR '':'' # show_int (sint n)) @ r) (DQ # ?p)"
    by (simp only: append_Cons)
  also have "\<dots> = strstr r (DQ # ?p)"
    using nq by (rule strstr_skip_noquote)
  finally show ?thesis .
qed

lemma strstr_hit_field:
  "strstr ((if c then '','' else []) @ DQ # k @ DQ # CHR '':'' # t) (DQ # k @ DQ # CHR '':'' # t')
    = (if prefix t' t then Some (DQ # k @ DQ # CHR '':'' # t) else
       strstr (k @ DQ # CHR '':'' # t) (DQ # k @ DQ # CHR '':'' # t'))"
  by (cases c) simp_all

section \<open>Reading a field of an encoded message\<close>

lemma json_get_string_cong:
  "strstr j1 ([DQ] @ k @ [DQ, CHR '':'', DQ]) = strstr j2 ([DQ] @ k @ [DQ, CHR '':'', DQ])
   \<Longrightarrow> json_get_string j1 k n = json_get_string j2 k n"
  by (simp add: json_get_string_def)

lemma json_get_int_cong:
  "strstr j1 ([DQ] @ k @ [DQ, CHR '':'']) = strstr j2 ([DQ] @ k @ [DQ, CHR '':''])
   \<Longrightarrow> json_get_int j1 k = json_get_int j2 k"
  by (simp add: json_get_int_def)

lemma json_get_string_skip_brace:
  "json_get_string (CHR ''{'' # r) k n = json_get_string r k n"
  by (rule json_get_string_cong) simp

lemma json_get_int_skip_brace:
  "json_get_int (CHR ''{'' # r) k = json_get_int r k"
  by (rule json_get_int_cong) simp

lemma json_get_string_skip_string:
  assumes "DQ \<notin> set k" "k \<noteq> []" "hd k \<noteq> CHR '':''" "hd k \<noteq> CHR '',''" "hd k \<noteq> CHR ''}''"
    and "DQ \<notin> set k'" "k \<noteq> k'" and "DQ \<notin> set v" and "field_end r"
  shows "json_get_string (fmt_string k' v c @ r) k n = json_get_string r k n"
  using strstr_skip_string_field [OF assms, of c "[DQ]"]
  by (intro json_get_string_cong) simp

lemma json_get_int_skip_string:
  assumes "DQ \<notin> set k" "k \<noteq> []" "hd k \<noteq> CHR '':''" "hd k \<noteq> CHR '',''" "hd k \<noteq> CHR ''}''"
    and "DQ \<notin> set k'" "k \<noteq> k'" and "DQ \<notin> set v" and "field_end r"
  shows "json_get_int (fmt_string k' v c @ r) k = json_get_int r k"
  using strstr_skip_string_field [OF assms, of c "[]"]
  by (intro json_get_int_cong) simp

lemma json_get_string_skip_int:
  assumes "DQ \<notin> set k" "k \<noteq> []" "hd k \<noteq> CHR '':''" and "DQ \<notin> set k'" "k \<noteq> k'"
  shows "json_get_string (fmt_int k' i c @ r) k n = json_get_string r k n"
  using strstr_skip_int_field [OF assms, of i c r "[DQ]"]
  by (intro json_get_string_cong) simp

lemma json_get_int_skip_int:
  assumes "DQ \<notin> set k" "k \<noteq> []" "hd k \<noteq> CHR '':''" and "DQ \<notin> set k'" "k \<noteq> k'"
  shows "json_get_int (fmt_int k' i c @ r) k = json_get_int r k"
  using strstr_skip_int_field [OF assms, of i c r "[]"]
  by (intro json_get_int_cong) simp

lemma strchr_value: "DQ \<notin> set v \<Longrightarrow> strchr (v @ DQ # r) DQ = Some (DQ # r)"
  by (induction v) auto

lemma json_get_string_hit:
  assumes v: "DQ \<notin> set v" and len: "length v < n"
  shows "json_get_string (fmt_string k v c @ r) k n = Some v"
proof -
  let ?search = "[DQ] @ k @ [DQ, CHR '':'', DQ]"
  have "fmt_string k v c @ r = (if c then '','' else []) @ DQ # k @ DQ # CHR '':'' # (DQ # v @ DQ # r)"
    by (simp add: fmt_string_def)
  then have "strstr (fmt_string k v c @ r) ?search = Some (?search @ v @ DQ # r)"
    using strstr_hit_field [of c k "DQ # v @ DQ # r" "[DQ]"] by simp
  moreover have "drop (length ?search) (?search @ v @ DQ # r) = v @ DQ # r"
    by simp
  ultimately show ?thesis
    using strchr_value [OF v, of r] len by (simp add: json_get_string_def Let_def)
qed

lemma json_get_int_hit:
  assumes "field_end r"
  shows "json_get_int (fmt_int k i c @ r) k = i"
proof -
  let ?search = "[DQ] @ k @ [DQ, CHR '':'']"
  have "fmt_int k i c @ r = (if c then '','' else []) @ DQ # k @ DQ # CHR '':'' # (show_int (sint i) @ r)"
    by (simp add: fmt_int_def)
  then have "strstr (fmt_int k i c @ r) ?search = Some (?search @ show_int (sint i) @ r)"
    using strstr_hit_field [of c k "show_int (sint i) @ r" "[]"] by simp
  moreover have "drop (length ?search) (?search @ show_int (sint i) @ r) = show_int (sint i) @ r"
    by simp
  ultimately show ?thesis
    using atoi_show_int [OF assms, of i] by (simp add: json_get_int_def Let_def)
qed

lemma json_get_string_end: "json_get_string ''}'' k n = None"
  by (simp add: json_get_string_def)

lemma json_get_int_end: "json_get_int ''}'' k = 0"
  by (simp add: json_get_int_def)

lemma field_end_simps:
  "field_end (fmt_string k v True @ r)" "field_end (fmt_int k i True @ r)" "field_end ''}''"
  by (simp_all add: field_end_def fmt_string_def fmt_int_def)

lemmas field_rules =
  json_get_string_skip_brace json_get_int_skip_brace
  json_get_string_skip_string json_get_int_skip_string
  json_get_string_skip_int json_get_int_skip_int
  json_get_string_hit json_get_int_hit
  json_get_string_end json_get_int_end field_end_simps

lemma helo_text_decode:
  assumes q: "DQ \<notin> set (id_s (my_service g))" "DQ \<notin> set (service (my_service g))"
      "DQ \<notin> set (local_ip g)" "DQ \<notin> set (caps (my_service g))"
    and l: "length (id_s (my_service g)) < PN_MAX_ID_LEN"
      "length (service (my_service g)) < PN_MAX_SERVICE_LEN"
      "length (local_ip g) < PN_MAX_IP_LEN" "length (caps (my_service g)) < PN_MAX_CAPS_LEN"
  shows "json_get_string (helo_text g now) ''m'' 8 = Some PN_MAGIC"
    and "json_get_string (helo_text g now) ''cmd'' 16 = Some ''helo''"
    and "json_get_string (helo_text g now) ''id'' PN_MAX_ID_LEN = Some (id_s (my_service g))"
    and "json_get_string (helo_text g now) ''svc'' PN_MAX_SERVICE_LEN = Some (service (my_service g))"
    and "json_get_string (helo_text g now) ''ip'' PN_MAX_IP_LEN = Some (local_ip g)"
    and "json_get_int (helo_text g now) ''port'' = ctrl_port (my_service g)"
    and "json_get_int (helo_text g now) ''data'' =
           (if sint (data_port (my_service g)) > 0 then data_port (my_service g) else 0)"
    and "json_get_string (helo_text g now) ''caps'' PN_MAX_CAPS_LEN =
           (if caps (my_service g) \<noteq> [] then Some (caps (my_service g)) else None)"
proof -
  show "json_get_string (helo_text g now) ''m'' 8 = Some PN_MAGIC"
    by (simp add: helo_text_def field_rules)
  show "json_get_string (helo_text g now) ''cmd'' 16 = Some ''helo''"
    by (simp add: helo_text_def field_rules)
  show "json_get_string (helo_text g now) ''id'' PN_MAX_ID_LEN = Some (id_s (my_service g))"
    using q l by (simp add: helo_text_def field_rules)
  show "json_get_string (helo_text g now) ''svc'' PN_MAX_SERVICE_LEN = Some (service (my_service g))"
    using q l by (simp add: helo_text_def field_rules)
  show "json_get_string (helo_text g now) ''ip'' PN_MAX_IP_LEN = Some (local_ip g)"
    using q l by (simp add: helo_text_def field_rules)
  show "json_get_int (helo_text g now) ''port'' = ctrl_port (my_service g)"
    using q l by (simp add: helo_text_def field_rules)
  show "json_get_int (helo_text g now) ''data'' =
           (if sint (data_port (my_service g)) > 0 then data_port (my_service g) else 0)"
    using q l by (simp add: helo_text_def field_rules)
  show "json_get_string (helo_text g now) ''caps'' PN_MAX_CAPS_LEN =
           (if caps (my_service g) \<noteq> [] then Some (caps (my_service g)) else None)"
    using q l by (simp add: helo_text_def field_rules)
qed

lemma c_str_id: "NUL \<notin> set s \<Longrightarrow> c_str s = s"
  by (auto simp: c_str_def takeWhile_eq_all_conv)

lemma helo_text_no_nul:
  assumes "NUL \<notin> set (id_s (my_service g))" "NUL \<notin> set (service (my_service g))"
    "NUL \<notin> set (local_ip g)" "NUL \<notin> set (caps (my_service g))"
  shows "NUL \<notin> set (helo_text g now)"
  using assms show_int_no_nul by (simp add: helo_text_def fmt_string_def fmt_int_def)

section \<open>Encoding, then decoding\<close>

text \<open>
  C4, as amended. Let the string fields of the self descriptor (identity, service
  type, address, capabilities) be C strings within the capacities of their fields
  and hold no double quote. The presence message that the announcer broadcasts is then
  decoded by the calls of \<open>parse_message\<close> to the protocol tag, the command \<open>helo\<close>,
  and the identity, service type, address and control port supplied; to the data port
  when it is positive, and to 0 when it is not and the key is omitted; to the
  capabilities when they are not empty, and to no value when they are and the key
  is omitted. An instance that is not announcing the same identity stores exactly
  these fields and passes them to the callback.
\<close>

theorem helo_round_trip:
  assumes q: "DQ \<notin> set (id_s (my_service g))" "DQ \<notin> set (service (my_service g))"
      "DQ \<notin> set (local_ip g)" "DQ \<notin> set (caps (my_service g))"
    and z: "NUL \<notin> set (id_s (my_service g))" "NUL \<notin> set (service (my_service g))"
      "NUL \<notin> set (local_ip g)" "NUL \<notin> set (caps (my_service g))"
    and l: "length (id_s (my_service g)) < PN_MAX_ID_LEN"
      "length (service (my_service g)) < PN_MAX_SERVICE_LEN"
      "length (local_ip g) < PN_MAX_IP_LEN" "length (caps (my_service g)) < PN_MAX_CAPS_LEN"
    and m: "1 \<le> maxlen" "maxlen \<le> int (length buf)" "maxlen \<le> 2147483647"
    and sent: "announce_datagram g now buf maxlen = Some wire"
    and other: "\<not> (announcing gr \<and> id_s (my_service g) = id_s (my_service gr))"
  shows "json_get_string (c_str wire) ''m'' 8 = Some PN_MAGIC
       \<and> json_get_string (c_str wire) ''cmd'' 16 = Some ''helo''
       \<and> json_get_string (c_str wire) ''id'' PN_MAX_ID_LEN = Some (id_s (my_service g))
       \<and> json_get_string (c_str wire) ''svc'' PN_MAX_SERVICE_LEN = Some (service (my_service g))
       \<and> json_get_string (c_str wire) ''ip'' PN_MAX_IP_LEN = Some (local_ip g)
       \<and> json_get_int (c_str wire) ''port'' = ctrl_port (my_service g)
       \<and> json_get_int (c_str wire) ''data'' =
            (if sint (data_port (my_service g)) > 0 then data_port (my_service g) else 0)
       \<and> json_get_string (c_str wire) ''caps'' PN_MAX_CAPS_LEN =
            (if caps (my_service g) \<noteq> [] then Some (caps (my_service g)) else None)
       \<and> parse_message gr caps0 sender_ip t wire =
            (0,
             gr\<lparr>services := registry_store (services gr)
                   (fst (registry_lookup (services gr) (id_s (my_service g))))
                   \<lparr>id_s = id_s (my_service g), service = service (my_service g),
                    ip = local_ip g, ctrl_port = ctrl_port (my_service g),
                    data_port = (if sint (data_port (my_service g)) > 0 then data_port (my_service g) else 0),
                    caps = (if caps (my_service g) \<noteq> [] then caps (my_service g)
                            else take (PN_MAX_CAPS_LEN - 1) caps0),
                    last_seen = word_of_int t, active = True\<rparr>\<rparr>,
             if snd (registry_lookup (services gr) (id_s (my_service g))) \<and> callback gr
             then [Callback (id_s (my_service g)) (service (my_service g)) (local_ip g)
                     (ctrl_port (my_service g))
                     (if sint (data_port (my_service g)) > 0 then data_port (my_service g) else 0)
                     (if caps (my_service g) \<noteq> [] then caps (my_service g) else caps0) False]
             else [])"
proof -
  have w: "wire = helo_text g now" using m sent by (rule announce_datagram_D)
  have c: "c_str (helo_text g now) = helo_text g now"
    using z by (intro c_str_id helo_text_no_nul)
  note d = helo_text_decode [OF q l, of now]
  have pm: "parse_message gr caps0 sender_ip t (helo_text g now) =
              parse_helo gr caps0 sender_ip t (helo_text g now) (id_s (my_service g))"
    using other d(1,2,3) by (auto simp: parse_message_def c Let_def)
  have ph: "parse_helo gr caps0 sender_ip t (helo_text g now) (id_s (my_service g)) =
            (0,
             gr\<lparr>services := registry_store (services gr)
                   (fst (registry_lookup (services gr) (id_s (my_service g))))
                   \<lparr>id_s = id_s (my_service g), service = service (my_service g),
                    ip = local_ip g, ctrl_port = ctrl_port (my_service g),
                    data_port = (if sint (data_port (my_service g)) > 0 then data_port (my_service g) else 0),
                    caps = (if caps (my_service g) \<noteq> [] then caps (my_service g)
                            else take (PN_MAX_CAPS_LEN - 1) caps0),
                    last_seen = word_of_int t, active = True\<rparr>\<rparr>,
             if snd (registry_lookup (services gr) (id_s (my_service g))) \<and> callback gr
             then [Callback (id_s (my_service g)) (service (my_service g)) (local_ip g)
                     (ctrl_port (my_service g))
                     (if sint (data_port (my_service g)) > 0 then data_port (my_service g) else 0)
                     (if caps (my_service g) \<noteq> [] then caps (my_service g) else caps0) False]
             else [])"
    using l by (simp add: parse_helo_def d(4-8) Let_def case_prod_unfold strncpy_def)
  show ?thesis
    unfolding w c using d pm ph by simp
qed

theorem helo_round_trip_witness:
  "DQ \<notin> set (id_s (my_service announcer_X)) \<and> DQ \<notin> set (service (my_service announcer_X))
   \<and> DQ \<notin> set (local_ip announcer_X) \<and> DQ \<notin> set (caps (my_service announcer_X))
   \<and> NUL \<notin> set (id_s (my_service announcer_X)) \<and> NUL \<notin> set (service (my_service announcer_X))
   \<and> NUL \<notin> set (local_ip announcer_X) \<and> NUL \<notin> set (caps (my_service announcer_X))
   \<and> length (id_s (my_service announcer_X)) < PN_MAX_ID_LEN
   \<and> length (service (my_service announcer_X)) < PN_MAX_SERVICE_LEN
   \<and> length (local_ip announcer_X) < PN_MAX_IP_LEN
   \<and> length (caps (my_service announcer_X)) < PN_MAX_CAPS_LEN
   \<and> 1 \<le> PN_MAX_MSG_LEN \<and> PN_MAX_MSG_LEN \<le> int (length msg_buffer)
   \<and> announce_datagram announcer_X 0 msg_buffer PN_MAX_MSG_LEN = Some helo_X
   \<and> \<not> announcing listener
   \<and> json_get_string (c_str helo_X) ''id'' PN_MAX_ID_LEN = Some ''X''
   \<and> json_get_string (c_str helo_X) ''svc'' PN_MAX_SERVICE_LEN = Some ''sdr_server''
   \<and> json_get_string (c_str helo_X) ''ip'' PN_MAX_IP_LEN = Some ''10.0.0.9''
   \<and> json_get_int (c_str helo_X) ''port'' = 4535
   \<and> json_get_int (c_str helo_X) ''data'' = 4536
   \<and> json_get_string (c_str helo_X) ''caps'' PN_MAX_CAPS_LEN = Some ''c''
   \<and> parse_message listener [] ''10.0.0.9'' 0 helo_X =
        (0, listener_knows_X, [Callback ''X'' ''sdr_server'' ''10.0.0.9'' 4535 4536 ''c'' False])"
proof -
  have f: "id_s (my_service announcer_X) = ''X''" "service (my_service announcer_X) = ''sdr_server''"
    "local_ip announcer_X = ''10.0.0.9''" "caps (my_service announcer_X) = ''c''"
    "ctrl_port (my_service announcer_X) = 4535" "data_port (my_service announcer_X) = 4536"
    by (simp_all add: announcer_X_def record_X_def init_discovery_def)
  have q: "DQ \<notin> set (id_s (my_service announcer_X))" "DQ \<notin> set (service (my_service announcer_X))"
    "DQ \<notin> set (local_ip announcer_X)" "DQ \<notin> set (caps (my_service announcer_X))"
    unfolding f by simp_all
  have z: "NUL \<notin> set (id_s (my_service announcer_X))" "NUL \<notin> set (service (my_service announcer_X))"
    "NUL \<notin> set (local_ip announcer_X)" "NUL \<notin> set (caps (my_service announcer_X))"
    unfolding f by simp_all
  have l: "length (id_s (my_service announcer_X)) < PN_MAX_ID_LEN"
    "length (service (my_service announcer_X)) < PN_MAX_SERVICE_LEN"
    "length (local_ip announcer_X) < PN_MAX_IP_LEN"
    "length (caps (my_service announcer_X)) < PN_MAX_CAPS_LEN"
    unfolding f by simp_all
  have m: "1 \<le> PN_MAX_MSG_LEN" "PN_MAX_MSG_LEN \<le> int (length msg_buffer)"
    "PN_MAX_MSG_LEN \<le> 2147483647"
    by (simp_all add: msg_buffer_def)
  have "int (length (helo_text announcer_X 0)) < PN_MAX_MSG_LEN"
    unfolding helo_text_X by (simp add: helo_X_def)
  with m have "announce_datagram announcer_X 0 msg_buffer PN_MAX_MSG_LEN = Some (helo_text announcer_X 0)"
    by (rule announce_datagram_eq)
  then have sent: "announce_datagram announcer_X 0 msg_buffer PN_MAX_MSG_LEN = Some helo_X"
    by (simp only: helo_text_X)
  have n: "\<not> announcing listener" by code_simp
  then have other: "\<not> (announcing listener \<and> id_s (my_service announcer_X) = id_s (my_service listener))"
    by simp
  note t = helo_round_trip [OF q z l m sent other, of "[]" "''10.0.0.9''" 0]
  from t have d1: "json_get_string (c_str helo_X) ''id'' PN_MAX_ID_LEN = Some ''X''"
    unfolding f by blast
  from t have d2: "json_get_string (c_str helo_X) ''svc'' PN_MAX_SERVICE_LEN = Some ''sdr_server''"
    unfolding f by blast
  from t have d3: "json_get_string (c_str helo_X) ''ip'' PN_MAX_IP_LEN = Some ''10.0.0.9''"
    unfolding f by blast
  from t have d4: "json_get_int (c_str helo_X) ''port'' = 4535"
    unfolding f by blast
  have d5: "json_get_int (c_str helo_X) ''data'' = 4536" by code_simp
  have d6: "json_get_string (c_str helo_X) ''caps'' PN_MAX_CAPS_LEN = Some ''c''" by code_simp
  have d7: "parse_message listener [] ''10.0.0.9'' 0 helo_X =
        (0, listener_knows_X, [Callback ''X'' ''sdr_server'' ''10.0.0.9'' 4535 4536 ''c'' False])"
    by code_simp
  from q z l m(1,2) sent n d1 d2 d3 d4 d5 d6 d7 show ?thesis by blast
qed

text \<open>
  The claim C4 as it was stated fails for an identity that holds a double quote: the
  encoder writes it as it is, and the decoder stops at it.
\<close>

theorem helo_round_trip_counterexample:
  \<open>announce_datagram announcer_quote 0 msg_buffer PN_MAX_MSG_LEN = Some helo_quote
   \<and> id_s (my_service announcer_quote) = ''a"b''
   \<and> json_get_string (c_str helo_quote) ''id'' PN_MAX_ID_LEN = Some ''a''
   \<and> json_get_string (c_str helo_quote) ''id'' PN_MAX_ID_LEN
       \<noteq> Some (id_s (my_service announcer_quote))\<close>
proof -
  have m: "1 \<le> PN_MAX_MSG_LEN" "PN_MAX_MSG_LEN \<le> int (length msg_buffer)"
    "PN_MAX_MSG_LEN \<le> 2147483647"
    by (simp_all add: msg_buffer_def)
  have "int (length (helo_text announcer_quote 0)) < PN_MAX_MSG_LEN"
    unfolding helo_text_quote by (simp add: helo_quote_def)
  with m have "announce_datagram announcer_quote 0 msg_buffer PN_MAX_MSG_LEN
                 = Some (helo_text announcer_quote 0)"
    by (rule announce_datagram_eq)
  then have sent: "announce_datagram announcer_quote 0 msg_buffer PN_MAX_MSG_LEN = Some helo_quote"
    by (simp only: helo_text_quote)
  have i: \<open>id_s (my_service announcer_quote) = ''a"b''\<close>
    by (simp add: announcer_quote_def)
  have d: "json_get_string (c_str helo_quote) ''id'' PN_MAX_ID_LEN = Some ''a''" by code_simp
  have n: "json_get_string (c_str helo_quote) ''id'' PN_MAX_ID_LEN
       \<noteq> Some (id_s (my_service announcer_quote))"
    unfolding d i by simp
  from sent i d n show ?thesis by blast
qed

end
